theory Spec2Isabelle
  imports Main "HOL-Library.Char_ord" "HOL-Library.AList"
begin

section \<open>Strings and the character classes of the regular expressions\<close>

text \<open>
  A JavaScript string is modelled as a \<open>string\<close>, one \<open>char\<close> per code unit. Every
  character class in the source is an ASCII class, so all code units outside ASCII behave alike:
  they are ordinary characters that belong to no class (apart from the non-breaking space, which
  \<open>\s\<close> matches).
\<close>

definition inRange :: "char \<Rightarrow> char \<Rightarrow> char \<Rightarrow> bool" where
  "inRange lo hi c = (lo \<le> c \<and> c \<le> hi)"

text \<open>The class \<open>[a-zA-Z0-9_-]\<close>; \<open>[\w-]\<close> is the same class.\<close>

definition isIdentChar :: "char \<Rightarrow> bool" where
  "isIdentChar c =
     (inRange CHR ''a'' CHR ''z'' c \<or> inRange CHR ''A'' CHR ''Z'' c \<or>
      inRange CHR ''0'' CHR ''9'' c \<or> c = CHR ''_'' \<or> c = CHR ''-'')"

text \<open>The class \<open>[a-zA-Z_-]\<close>.\<close>

definition isIdentStart :: "char \<Rightarrow> bool" where
  "isIdentStart c =
     (inRange CHR ''a'' CHR ''z'' c \<or> inRange CHR ''A'' CHR ''Z'' c \<or>
      c = CHR ''_'' \<or> c = CHR ''-'')"

text \<open>The line terminators, which \<open>.\<close> does not match (line feed and carriage return).\<close>

definition isLineTerminator :: "char \<Rightarrow> bool" where
  "isLineTerminator c = (c = CHR 0x0A \<or> c = CHR 0x0D)"

text \<open>The class \<open>\s\<close>: tab, line feed, vertical tab, form feed, carriage return, space,
  non-breaking space.\<close>

definition isSpace :: "char \<Rightarrow> bool" where
  "isSpace c = (inRange (CHR 0x09) (CHR 0x0D) c \<or> c = CHR '' '' \<or> c = CHR 0xA0)"

text \<open>Number-to-string conversion of a non-negative integer: its decimal digits.\<close>

definition digitChar :: "nat \<Rightarrow> char" where
  "digitChar d = ''0123456789'' ! d"

fun show_nat :: "nat \<Rightarrow> string" where
  "show_nat n =
     (if n < 10 then [digitChar n] else show_nat (n div 10) @ [digitChar (n mod 10)])"

declare show_nat.simps [simp del]

lemma dropWhile_shorter [termination_simp]: "length (dropWhile P xs) < Suc (length xs)"
  by (simp add: less_Suc_eq_le length_dropWhile_le)

lemma dropWhile_tl_shorter [termination_simp]:
  "length (dropWhile P (tl xs)) < Suc (length xs)"
proof -
  have "length (dropWhile P (tl xs)) \<le> length (tl xs)" by (rule length_dropWhile_le)
  then show ?thesis by simp
qed

section \<open>CSSParser.calculateSpecificity\<close>

text \<open>
  \<open>selector.match(re)\<close> with a global regular expression returns every match, found from left
  to right, each search starting where the previous match ended. At a position the alternatives
  are tried in the order written; \<open>+\<close> is greedy, \<open>+?\<close> is lazy.
\<close>

text \<open>\<open>/#[a-zA-Z0-9_-]+/g\<close>\<close>

fun matchIds :: "string \<Rightarrow> string list" where
  "matchIds [] = []"
| "matchIds (c # cs) =
     (if c = CHR ''#'' \<and> takeWhile isIdentChar cs \<noteq> []
      then (c # takeWhile isIdentChar cs) # matchIds (dropWhile isIdentChar cs)
      else matchIds cs)"

text \<open>
  \<open>\[.+?\]\<close> after the opening bracket: one character that is no line terminator, then as few
  more such characters as possible up to a closing bracket. The result is the matched text after
  the bracket and the rest of the input.
\<close>

definition matchAttr :: "string \<Rightarrow> (string \<times> string) option" where
  "matchAttr cs =
     (case cs of
        [] \<Rightarrow> None
      | x # rest \<Rightarrow>
          if isLineTerminator x then None
          else
            (let pre = takeWhile (\<lambda>y. y \<noteq> CHR '']'' \<and> \<not> isLineTerminator y) rest;
                 post = dropWhile (\<lambda>y. y \<noteq> CHR '']'' \<and> \<not> isLineTerminator y) rest
             in case post of
                  [] \<Rightarrow> None
                | y # post' \<Rightarrow>
                    if y = CHR '']'' then Some (x # pre @ [y], post') else None))"

lemma matchAttr_shorter [termination_simp]:
  "matchAttr cs = Some (m, rest) \<Longrightarrow> length rest < Suc (length cs)"
proof -
  assume a: "matchAttr cs = Some (m, rest)"
  then obtain x tl' where cs: "cs = x # tl'"
    by (cases cs) (auto simp: matchAttr_def)
  let ?P = "\<lambda>y. y \<noteq> CHR '']'' \<and> \<not> isLineTerminator y"
  from a cs obtain y where "dropWhile ?P tl' = y # rest"
    by (auto simp: matchAttr_def Let_def split: if_splits list.splits)
  then have "length rest < length (dropWhile ?P tl')" by simp
  also have "\<dots> \<le> length tl'" by (rule length_dropWhile_le)
  finally show ?thesis using cs by simp
qed

text \<open>\<open>/\.[a-zA-Z0-9_-]+|\[.+?\]|:[a-zA-Z0-9_-]+/g\<close>\<close>

fun matchClasses :: "string \<Rightarrow> string list" where
  "matchClasses [] = []"
| "matchClasses (c # cs) =
     (if c = CHR ''.'' \<and> takeWhile isIdentChar cs \<noteq> []
      then (c # takeWhile isIdentChar cs) # matchClasses (dropWhile isIdentChar cs)
      else if c = CHR ''[''
      then (case matchAttr cs of
              Some (m, rest) \<Rightarrow> (c # m) # matchClasses rest
            | None \<Rightarrow> matchClasses cs)
      else if c = CHR '':'' \<and> takeWhile isIdentChar cs \<noteq> []
      then (c # takeWhile isIdentChar cs) # matchClasses (dropWhile isIdentChar cs)
      else matchClasses cs)"

text \<open>\<open>/[a-zA-Z0-9_-]+|::[a-zA-Z0-9_-]+/g\<close>\<close>

fun matchElements :: "string \<Rightarrow> string list" where
  "matchElements [] = []"
| "matchElements (c # cs) =
     (if isIdentChar c
      then (c # takeWhile isIdentChar cs) # matchElements (dropWhile isIdentChar cs)
      else if c = CHR '':'' \<and> cs \<noteq> [] \<and> hd cs = CHR '':'' \<and> takeWhile isIdentChar (tl cs) \<noteq> []
      then (c # hd cs # takeWhile isIdentChar (tl cs)) # matchElements (dropWhile isIdentChar (tl cs))
      else matchElements cs)"

definition calculateSpecificity :: "string \<Rightarrow> nat" where
  "calculateSpecificity selector =
     (let specificity = 0;
          idCount = length (matchIds selector);
          specificity = specificity + idCount * 100;
          classCount = length (matchClasses selector);
          specificity = specificity + classCount * 10;
          elementCount = length (matchElements selector);
          specificity = specificity + elementCount
      in specificity)"

lemmas char_class_defs = isIdentChar_def isIdentStart_def isLineTerminator_def isSpace_def inRange_def

section \<open>ClassNamingSystem\<close>

text \<open>
  A \<open>Map\<close> keeps its entries in insertion order; \<open>set\<close> on a key that is present replaces the
  value in place, and appends the entry otherwise. \<open>get\<close> on an absent key is \<open>undefined\<close>,
  modelled as \<open>None\<close>.
\<close>

type_synonym ('k, 'v) jsmap = "('k \<times> 'v) list"

definition mapGet :: "('k, 'v) jsmap \<Rightarrow> 'k \<Rightarrow> 'v option" where
  "mapGet m k = map_of m k"

definition mapHas :: "('k, 'v) jsmap \<Rightarrow> 'k \<Rightarrow> bool" where
  "mapHas m k = (map_of m k \<noteq> None)"

definition mapSet :: "('k, 'v) jsmap \<Rightarrow> 'k \<Rightarrow> 'v \<Rightarrow> ('k, 'v) jsmap" where
  "mapSet m k v = AList.update k v m"

text \<open>
  A plain object used as a dictionary (\<open>{}\<close> and \<open>obj[key] = value\<close>): its own properties in
  insertion order. Assigning a string to the key \<open>__proto__\<close> creates no property: the
  assignment reaches the accessor inherited from \<open>Object.prototype\<close>, which ignores a value
  that is not an object. (Keys that are array indices are enumerated first by JavaScript; the
  model keeps the order of insertion for all keys, and nothing below depends on the difference.)
\<close>

type_synonym 'v jsobject = "(string \<times> 'v) list"

definition objSet :: "string jsobject \<Rightarrow> string \<Rightarrow> string \<Rightarrow> string jsobject" where
  "objSet obj k v = (if k = ''__proto__'' then obj else AList.update k v obj)"

record ClassNamingSystem =
  prefix :: string
  classMap :: "(string, string) jsmap"
  reverseMap :: "(string, string) jsmap"
  counter :: nat

definition newClassNamingSystem :: "string \<Rightarrow> ClassNamingSystem" where
  "newClassNamingSystem p = \<lparr>prefix = p, classMap = [], reverseMap = [], counter = 0\<rparr>"

text \<open>\<open>/^[a-zA-Z_-][a-zA-Z0-9_-]*$/.test(s)\<close>\<close>

definition testValidName :: "string \<Rightarrow> bool" where
  "testValidName s = (case s of [] \<Rightarrow> False | c # cs \<Rightarrow> isIdentStart c \<and> list_all isIdentChar cs)"

lemma digitChar_code: "d < 10 \<Longrightarrow> of_char (digitChar d) = (48 + d :: nat)"
proof -
  assume "d < 10"
  then have "d \<in> {0, 1, 2, 3, 4, 5, 6, 7, 8, 9}"
    by auto
  then show ?thesis
    by (auto simp: digitChar_def)
qed

lemma digitChar_inj: "d < 10 \<Longrightarrow> e < 10 \<Longrightarrow> digitChar d = digitChar e \<Longrightarrow> d = e"
proof -
  assume d: "d < 10" and e: "e < 10" and eq: "digitChar d = digitChar e"
  from eq have "(of_char (digitChar d) :: nat) = of_char (digitChar e)" by simp
  with d e show "d = e" by (simp add: digitChar_code)
qed

lemma show_nat_nonempty: "show_nat n \<noteq> []"
  by (subst show_nat.simps) simp

lemma show_nat_inj: "show_nat n = show_nat m \<Longrightarrow> n = m"
proof (induction n arbitrary: m rule: show_nat.induct)
  case (1 n)
  show ?case
  proof (cases "n < 10")
    case small: True
    show ?thesis
    proof (cases "m < 10")
      case True
      with small "1.prems" show ?thesis
        by (simp add: show_nat.simps [of n] show_nat.simps [of m] digitChar_inj)
    next
      case False
      with small "1.prems" show ?thesis
        by (simp add: show_nat.simps [of n] show_nat.simps [of m] show_nat_nonempty [THEN not_sym])
    qed
  next
    case big: False
    show ?thesis
    proof (cases "m < 10")
      case True
      with big "1.prems" [symmetric] show ?thesis
        by (simp add: show_nat.simps [of n] show_nat.simps [of m] show_nat_nonempty [THEN not_sym])
    next
      case False
      with big "1.prems" have eq: "show_nat (n div 10) = show_nat (m div 10)"
        and dg: "digitChar (n mod 10) = digitChar (m mod 10)"
        by (simp_all add: show_nat.simps [of n] show_nat.simps [of m])
      from "1.IH" [OF big eq] have "n div 10 = m div 10" .
      moreover from dg have "n mod 10 = m mod 10"
        by (intro digitChar_inj) simp_all
      ultimately show ?thesis
        by (metis div_mult_mod_eq)
    qed
  qed
qed

lemma finite_suffixed_keys: "finite {k. mapHas rm (g @ ''-'' @ show_nat k)}"
proof -
  have inj: "inj (\<lambda>k. g @ ''-'' @ show_nat k)"
    by (rule injI) (simp add: show_nat_inj)
  have "{k. mapHas rm (g @ ''-'' @ show_nat k)} \<subseteq> (\<lambda>k. g @ ''-'' @ show_nat k) -` (fst ` set rm)"
    by (auto simp: mapHas_def map_of_eq_None_iff)
  moreover have "finite ((\<lambda>k. g @ ''-'' @ show_nat k) -` (fst ` set rm))"
    by (rule finite_vimageI [OF _ inj]) simp
  ultimately show ?thesis by (rule finite_subset)
qed

text \<open>
  The loop that makes the name unique:
  \<^verbatim>\<open>while (this.reverseMap.has(uniqueName)) { suffix++; uniqueName = `${generatedName}-${suffix}`; }\<close>
  It ends because the candidates are pairwise different and the map is finite.
\<close>

function uniqueLoop :: "(string, string) jsmap \<Rightarrow> string \<Rightarrow> nat \<Rightarrow> string \<Rightarrow> string" where
  "uniqueLoop rm generatedName suffix uniqueName =
     (if mapHas rm uniqueName
      then uniqueLoop rm generatedName (suffix + 1) (generatedName @ ''-'' @ show_nat (suffix + 1))
      else uniqueName)"
  by pat_completeness auto

termination
proof (relation "measure (\<lambda>(rm, g, suffix, u).
         (if mapHas rm u then 1 else 0) + card {k. suffix < k \<and> mapHas rm (g @ ''-'' @ show_nat k)})")
  show "wf (measure (\<lambda>(rm, g, suffix, u).
         (if mapHas rm u then 1 else 0) + card {k. suffix < k \<and> mapHas rm (g @ ''-'' @ show_nat k)}))"
    by simp
next
  fix rm :: "(string, string) jsmap" and g u :: string and suffix :: nat
  assume has: "mapHas rm u"
  let ?A = "\<lambda>s. {k. s < k \<and> mapHas rm (g @ ''-'' @ show_nat k)}"
  have fin: "finite (?A s)" for s
    by (rule finite_subset [OF _ finite_suffixed_keys [of rm g]]) auto
  have "(if mapHas rm (g @ ''-'' @ show_nat (suffix + 1)) then 1 else 0) + card (?A (suffix + 1))
        = card (?A suffix)"
  proof (cases "mapHas rm (g @ ''-'' @ show_nat (suffix + 1))")
    case True
    then have "?A suffix = insert (suffix + 1) (?A (suffix + 1))"
      by (auto simp: less_Suc_eq Suc_lessI)
    moreover have "suffix + 1 \<notin> ?A (suffix + 1)" by simp
    ultimately show ?thesis using True fin [of "suffix + 1"] by simp
  next
    case False
    then have "?A suffix = ?A (suffix + 1)"
      by (auto simp: Suc_lessI) (metis Suc_lessI)
    with False show ?thesis by simp
  qed
  with has show "((rm, g, suffix + 1, g @ ''-'' @ show_nat (suffix + 1)), (rm, g, suffix, u))
        \<in> measure (\<lambda>(rm, g, suffix, u).
            (if mapHas rm u then 1 else 0) + card {k. suffix < k \<and> mapHas rm (g @ ''-'' @ show_nat k)})"
    by simp
qed

declare uniqueLoop.simps [simp del]

text \<open>
  generateClassName returns the generated name and leaves the updated registry. In the first
  branch \<open>get\<close> follows a successful \<open>has\<close>, so the value is there.
\<close>

definition generateClassName :: "ClassNamingSystem \<Rightarrow> string \<Rightarrow> ClassNamingSystem \<times> string" where
  "generateClassName r originalClassName =
     (if mapHas (classMap r) originalClassName
      then (r, the (mapGet (classMap r) originalClassName))
      else
        (let generatedName =
               (if originalClassName \<noteq> [] \<and> testValidName originalClassName
                then prefix r @ originalClassName
                else prefix r @ ''class-'' @ show_nat (counter r));
             uniqueName = uniqueLoop (reverseMap r) generatedName 0 generatedName
         in (r\<lparr>classMap := mapSet (classMap r) originalClassName uniqueName,
                reverseMap := mapSet (reverseMap r) uniqueName originalClassName,
                counter := counter r + 1\<rparr>,
             uniqueName)))"

text \<open>\<open>list.map(className => this.generateClassName(className))\<close>\<close>

fun generateClassNames :: "ClassNamingSystem \<Rightarrow> string list \<Rightarrow> ClassNamingSystem \<times> string list" where
  "generateClassNames r [] = (r, [])"
| "generateClassNames r (n # ns) =
     (let (r1, g) = generateClassName r n; (r2, gs) = generateClassNames r1 ns in (r2, g # gs))"

text \<open>
  \<open>x || null\<close>: the value \<open>x\<close> unless it is falsy; \<open>undefined\<close> and the empty string are
  falsy. \<open>None\<close> is \<open>null\<close>.
\<close>

definition orNull :: "string option \<Rightarrow> string option" where
  "orNull x = (case x of None \<Rightarrow> None | Some v \<Rightarrow> if v = [] then None else Some v)"

definition getGeneratedClassName :: "ClassNamingSystem \<Rightarrow> string \<Rightarrow> string option" where
  "getGeneratedClassName r originalClassName = orNull (mapGet (classMap r) originalClassName)"

definition getOriginalClassName :: "ClassNamingSystem \<Rightarrow> string \<Rightarrow> string option" where
  "getOriginalClassName r generatedClassName = orNull (mapGet (reverseMap r) generatedClassName)"

definition hasGeneratedClassName :: "ClassNamingSystem \<Rightarrow> string \<Rightarrow> bool" where
  "hasGeneratedClassName r originalClassName = mapHas (classMap r) originalClassName"

text \<open>
  \<open>selector.replace(/\.([\w-]+)/g, callback)\<close>: the matches are found from left to right, the
  callback runs once per match in that order, and its result replaces the match; the text between
  the matches is kept. \<open>classTokens\<close> finds the matches, \<open>replaceClass\<close> is the callback.
\<close>

datatype segment = Lit char | ClassTok string

fun classTokens :: "string \<Rightarrow> segment list" where
  "classTokens [] = []"
| "classTokens (c # cs) =
     (if c = CHR ''.'' \<and> takeWhile isIdentChar cs \<noteq> []
      then ClassTok (takeWhile isIdentChar cs) # classTokens (dropWhile isIdentChar cs)
      else Lit c # classTokens cs)"

definition replaceClass :: "ClassNamingSystem \<Rightarrow> string \<Rightarrow> ClassNamingSystem \<times> string" where
  "replaceClass r className =
     (let r1 = (if \<not> hasGeneratedClassName r className
                then fst (generateClassName r className) else r)
      in (r1, case getGeneratedClassName r1 className of
                Some generatedName \<Rightarrow> CHR ''.'' # generatedName
              | None \<Rightarrow> CHR ''.'' # className))"

fun replaceAll :: "ClassNamingSystem \<Rightarrow> segment list \<Rightarrow> ClassNamingSystem \<times> string" where
  "replaceAll r [] = (r, [])"
| "replaceAll r (Lit c # segs) = (let (r1, out) = replaceAll r segs in (r1, c # out))"
| "replaceAll r (ClassTok n # segs) =
     (let (r1, rep) = replaceClass r n; (r2, out) = replaceAll r1 segs in (r2, rep @ out))"

definition transformSelector :: "ClassNamingSystem \<Rightarrow> string \<Rightarrow> ClassNamingSystem \<times> string" where
  "transformSelector r selector = replaceAll r (classTokens selector)"

definition getAllClassMappings :: "ClassNamingSystem \<Rightarrow> string jsobject" where
  "getAllClassMappings r = fold (\<lambda>(original, generated) mappings. objSet mappings original generated) (classMap r) []"

definition reset :: "ClassNamingSystem \<Rightarrow> ClassNamingSystem" where
  "reset r = r\<lparr>classMap := [], reverseMap := [], counter := 0\<rparr>"

section \<open>Plain objects and errors\<close>

text \<open>
  Reading \<open>obj[key]\<close> on an object literal finds an own property, or else a member inherited
  from \<open>Object.prototype\<close>, or else \<open>undefined\<close>.
\<close>

definition objectPrototypeKeys :: "string list" where
  "objectPrototypeKeys =
     [''constructor'', ''__proto__'', ''hasOwnProperty'', ''isPrototypeOf'',
      ''propertyIsEnumerable'', ''toString'', ''toLocaleString'', ''valueOf'',
      ''__defineGetter__'', ''__defineSetter__'', ''__lookupGetter__'', ''__lookupSetter__'']"

datatype 'a lookup = Own 'a | Inherited | Missing

definition objLookup :: "'a jsobject \<Rightarrow> string \<Rightarrow> 'a lookup" where
  "objLookup obj k =
     (case map_of obj k of
        Some v \<Rightarrow> Own v
      | None \<Rightarrow> if k \<in> set objectPrototypeKeys then Inherited else Missing)"

datatype js_error = TypeError string

section \<open>CSSParser.parse and CSSParser.processRule\<close>

text \<open>
  The stylesheet text is parsed by postcss; the parser of the repository works on the node tree
  that postcss returns: declarations, rules, at-rules (name, parameters) and comments.
\<close>

datatype css_node =
    Decl string string
  | Rule string "css_node list"
  | AtRule string string "css_node list"
  | Comment string

text \<open>What the callback of walkRules reads of \<open>rule.parent\<close>: its type and, for an at-rule, its name.\<close>

datatype css_parent = ParentRoot | ParentRule | ParentAtRule string

text \<open>
  \<open>container.walkRules\<close>, \<open>container.walkDecls\<close> and \<open>container.walkAtRules(name)\<close> visit all
  descendants of the container in document order, a node before its children. The functions
  below give the visits below one child node.
\<close>

fun walkRules :: "css_parent \<Rightarrow> css_node \<Rightarrow> (css_parent \<times> string \<times> css_node list) list" where
  "walkRules p (Decl prop v) = []"
| "walkRules p (Comment t) = []"
| "walkRules p (Rule sel nodes) = (p, sel, nodes) # concat (map (walkRules ParentRule) nodes)"
| "walkRules p (AtRule name params nodes) = concat (map (walkRules (ParentAtRule name)) nodes)"

fun walkDecls :: "css_node \<Rightarrow> (string \<times> string) list" where
  "walkDecls (Decl prop v) = [(prop, v)]"
| "walkDecls (Comment t) = []"
| "walkDecls (Rule sel nodes) = concat (map walkDecls nodes)"
| "walkDecls (AtRule name params nodes) = concat (map walkDecls nodes)"

fun walkAtRules :: "string \<Rightarrow> css_node \<Rightarrow> (string \<times> css_node list) list" where
  "walkAtRules nm (Decl prop v) = []"
| "walkAtRules nm (Comment t) = []"
| "walkAtRules nm (Rule sel nodes) = concat (map (walkAtRules nm) nodes)"
| "walkAtRules nm (AtRule name params nodes) =
     (if name = nm then [(params, nodes)] else []) @ concat (map (walkAtRules nm) nodes)"

record StyleRule =
  selector :: string
  specificity :: nat
  properties :: "string jsobject"

text \<open>processRule for a rule with the given selector and child nodes (the field originalRule,
  the rule printed back as text, is left out: nothing reads it).\<close>

definition processRule :: "string \<Rightarrow> css_node list \<Rightarrow> StyleRule" where
  "processRule sel nodes =
     \<lparr>selector = sel,
      specificity = calculateSpecificity sel,
      properties = fold (\<lambda>(prop, v) props. objSet props prop v) (concat (map walkDecls nodes)) []\<rparr>"

record MediaQuery =
  query :: string
  rules :: "StyleRule list"

record ParsedCss =
  styleRules :: "StyleRule list"
  mediaQueries :: "MediaQuery list"

definition CSSParser_parse :: "css_node list \<Rightarrow> ParsedCss" where
  "CSSParser_parse root =
     \<lparr>styleRules =
        map (\<lambda>(p, sel, nodes). processRule sel nodes)
          (filter (\<lambda>(p, sel, nodes). p \<noteq> ParentAtRule ''media'')
            (concat (map (walkRules ParentRoot) root))),
      mediaQueries =
        map (\<lambda>(params, nodes).
               \<lparr>query = params,
                rules = map (\<lambda>(p, sel, ns). processRule sel ns)
                          (concat (map (walkRules (ParentAtRule ''media'')) nodes))\<rparr>)
          (concat (map (walkAtRules ''media'') root))\<rparr>"


section \<open>HTMLParser\<close>

text \<open>
  The markup is parsed by cheerio; the parser of the repository walks the element tree that
  cheerio returns, starting at the body element. An element is its tag name, its attributes and
  its element children (\<open>$element.children()\<close>; text nodes are no children in this sense).
\<close>

datatype element = Element string "(string \<times> string) list" "element list"

text \<open>
  \<open>str.split(/\s+/)\<close>: the pieces between the runs of white space, empty pieces at the ends
  included. The function is written for any type of code units and any class \<open>sp\<close> of
  white-space units, since \<open>\s\<close> is the one class of the source that reaches beyond ASCII.
\<close>

fun splitAtRuns :: "('c \<Rightarrow> bool) \<Rightarrow> 'c list \<Rightarrow> 'c list \<Rightarrow> 'c list list" where
  "splitAtRuns sp piece [] = [piece]"
| "splitAtRuns sp piece (c # cs) =
     (if sp c then piece # splitAtRuns sp [] (dropWhile sp cs)
      else splitAtRuns sp (piece @ [c]) cs)"

text \<open>\<open>$element.attr('class') ? $element.attr('class').split(/\s+/).filter(Boolean) : []\<close>,
  the attribute being absent (\<open>None\<close>) or a string.\<close>

definition classNamesOf :: "('c \<Rightarrow> bool) \<Rightarrow> 'c list option \<Rightarrow> 'c list list" where
  "classNamesOf sp classAttr =
     (case classAttr of
        None \<Rightarrow> []
      | Some v \<Rightarrow> if v = [] then [] else filter (\<lambda>piece. piece \<noteq> []) (splitAtRuns sp [] v))"

definition parseClasses :: "string option \<Rightarrow> string list" where
  "parseClasses classAttr = classNamesOf isSpace classAttr"

text \<open>
  The class \<open>\s\<close> on UTF-16 code units, given as numbers: the white space and the line
  terminators of the language (tab, line feed, vertical tab, form feed, carriage return, space,
  no-break space, U+1680, U+2000 to U+200A, U+2028, U+2029, U+202F, U+205F, U+3000, U+FEFF).
\<close>

definition isSpaceUnit :: "nat \<Rightarrow> bool" where
  "isSpaceUnit u =
     ((0x09 \<le> u \<and> u \<le> 0x0D) \<or> u = 0x20 \<or> u = 0xA0 \<or> u = 0x1680 \<or>
      (0x2000 \<le> u \<and> u \<le> 0x200A) \<or> u = 0x2028 \<or> u = 0x2029 \<or> u = 0x202F \<or>
      u = 0x205F \<or> u = 0x3000 \<or> u = 0xFEFF)"

text \<open>\<open>toLowerCase\<close> on the ASCII letters (the keys it is compared with are ASCII).\<close>

definition toLowerCase :: "string \<Rightarrow> string" where
  "toLowerCase s = map (\<lambda>c. if inRange CHR ''A'' CHR ''Z'' c then char_of (of_char c + (32::nat)) else c) s"

definition tagMap :: "string jsobject" where
  "tagMap =
     [(''div'', ''div''), (''span'', ''text''), (''p'', ''paragraph''), (''h1'', ''heading''),
      (''h2'', ''heading''), (''h3'', ''heading''), (''h4'', ''heading''), (''h5'', ''heading''),
      (''h6'', ''heading''), (''a'', ''link''), (''img'', ''image''), (''ul'', ''list''),
      (''ol'', ''list''), (''li'', ''listItem''), (''button'', ''button''), (''form'', ''form''),
      (''input'', ''input''), (''textarea'', ''textarea''), (''select'', ''select''),
      (''option'', ''option''), (''video'', ''video''), (''audio'', ''audio''),
      (''iframe'', ''embed''), (''section'', ''section''), (''article'', ''div''),
      (''aside'', ''div''), (''footer'', ''footer''), (''header'', ''header''), (''nav'', ''nav''),
      (''main'', ''div''), (''figure'', ''div''), (''figcaption'', ''div''),
      (''blockquote'', ''blockquote''), (''hr'', ''divider''), (''br'', ''lineBreak''),
      (''table'', ''table''), (''tr'', ''tableRow''), (''td'', ''tableCell''),
      (''th'', ''tableCell''), (''thead'', ''tableHead''), (''tbody'', ''tableBody''),
      (''tfoot'', ''tableFoot'')]"

text \<open>The element type is a string, except for a tag named like a member of
  \<open>Object.prototype\<close>, where \<open>tagMap[...]\<close> is that member.\<close>

datatype element_type = TypeName string | PrototypeMember string

definition mapElementType :: "string \<Rightarrow> element_type" where
  "mapElementType tagName =
     (if tagName = [] then TypeName ''div''
      else case objLookup tagMap (toLowerCase tagName) of
             Own t \<Rightarrow> TypeName t
           | Inherited \<Rightarrow> PrototypeMember (toLowerCase tagName)
           | Missing \<Rightarrow> TypeName ''div'')"

text \<open>The parsed element: id, tagName, type, classes, children. The fields attributes, styles
  (inline) and content are left out; the style resolution never reads them.\<close>

datatype ParsedElement =
  ParsedElement (pe_id: string) (pe_tagName: string) (pe_type: element_type)
    (pe_classes: "string list") (pe_children: "ParsedElement list")

fun parseElement :: "nat \<Rightarrow> element \<Rightarrow> ParsedElement \<times> nat"
  and parseChildren :: "nat \<Rightarrow> element list \<Rightarrow> ParsedElement list \<times> nat" where
  "parseElement idCounter (Element tagName attribs childElements) =
     (let elementId = ''el-'' @ show_nat idCounter;
          (children, idCounter') = parseChildren (idCounter + 1) childElements
      in (ParsedElement elementId tagName (mapElementType tagName)
            (parseClasses (map_of attribs ''class'')) children,
          idCounter'))"
| "parseChildren idCounter [] = ([], idCounter)"
| "parseChildren idCounter (child # rest) =
     (let (parsedChild, c1) = parseElement idCounter child;
          (parsedRest, c2) = parseChildren c1 rest
      in (parsedChild # parsedRest, c2))"

definition HTMLParser_parse :: "element \<Rightarrow> ParsedElement" where
  "HTMLParser_parse bodyElement = fst (parseElement 0 bodyElement)"


section \<open>WebflowElementMapper\<close>

text \<open>
  The created elements are mutable objects that the map createdElements and the later style
  pass share, so they live in a store: a list of objects, an object's address being its index.
  An object has the fields that createRootElement and createChildElement give it (attributes and
  content, which the style pass never reads, are left out), and the field classes only once
  applyClass has created it.
\<close>

record WebflowElement =
  we_id :: string
  we_type :: string
  we_preset :: "string option"
  we_styles :: "string jsobject"
  we_children :: "string list"
  we_parent :: "string option"
  we_classes :: "string list option"

record Mapper =
  store :: "WebflowElement list"
  createdElements :: "(string, nat) jsmap"

text \<open>The presets loaded by initialize: element type and \<open>id\<close> of the preset.\<close>

definition elementPresets :: "string jsobject" where
  "elementPresets =
     [(''div'', ''preset-div''), (''text'', ''preset-text''), (''paragraph'', ''preset-paragraph''),
      (''heading'', ''preset-heading''), (''link'', ''preset-link''), (''image'', ''preset-image''),
      (''list'', ''preset-list''), (''listItem'', ''preset-list-item''),
      (''button'', ''preset-button''), (''form'', ''preset-form''), (''input'', ''preset-input''),
      (''textarea'', ''preset-textarea''), (''select'', ''preset-select''),
      (''option'', ''preset-option''), (''video'', ''preset-video''), (''audio'', ''preset-audio''),
      (''embed'', ''preset-embed''), (''section'', ''preset-section''),
      (''footer'', ''preset-footer''), (''header'', ''preset-header''), (''nav'', ''preset-nav''),
      (''blockquote'', ''preset-blockquote''), (''divider'', ''preset-divider''),
      (''lineBreak'', ''preset-line-break''), (''table'', ''preset-table''),
      (''tableRow'', ''preset-table-row''), (''tableCell'', ''preset-table-cell''),
      (''tableHead'', ''preset-table-head''), (''tableBody'', ''preset-table-body''),
      (''tableFoot'', ''preset-table-foot'')]"

text \<open>
  \<open>const preset = this.elementPresets[elementType]; if (!preset) { ...; preset = ... }\<close>:
  a missing preset ends in the TypeError of an assignment to a constant. The result is the
  element type as a string and \<open>preset.id\<close>.
\<close>

definition lookupPreset :: "element_type \<Rightarrow> js_error + (string \<times> string option)" where
  "lookupPreset elementType =
     (case elementType of
        PrototypeMember k \<Rightarrow> Inl (TypeError ''Assignment to constant variable.'')
      | TypeName t \<Rightarrow>
          (case objLookup elementPresets t of
             Own presetId \<Rightarrow> Inr (t, Some presetId)
           | Inherited \<Rightarrow> Inr (t, None)
           | Missing \<Rightarrow> Inl (TypeError ''Assignment to constant variable.'')))"

definition pushChild :: "WebflowElement list \<Rightarrow> nat \<Rightarrow> string \<Rightarrow> WebflowElement list" where
  "pushChild st parentAddr childId =
     st[parentAddr := (st ! parentAddr)\<lparr>we_children := we_children (st ! parentAddr) @ [childId]\<rparr>]"

text \<open>createRootElement (no parent) and createChildElement: the new object, allocated at the
  end of the store; the child's id is pushed onto the children of the parent object.\<close>

definition createElement ::
  "WebflowElement list \<Rightarrow> ParsedElement \<Rightarrow> string \<Rightarrow> string option \<Rightarrow> nat option
   \<Rightarrow> WebflowElement list \<times> nat" where
  "createElement st parsedElement t presetId parentAddr =
     (let el = \<lparr>we_id = ''webflow-'' @ pe_id parsedElement, we_type = t, we_preset = presetId,
                 we_styles = [], we_children = [],
                 we_parent = (case parentAddr of None \<Rightarrow> None | Some a \<Rightarrow> Some (we_id (st ! a))),
                 we_classes = None\<rparr>;
          st1 = st @ [el]
      in (case parentAddr of
            None \<Rightarrow> (st1, length st)
          | Some a \<Rightarrow> (pushChild st1 a (we_id el), length st)))"

fun mapElement :: "Mapper \<Rightarrow> ParsedElement \<Rightarrow> nat option \<Rightarrow> js_error + (Mapper \<times> nat)"
  and mapChildElements :: "Mapper \<Rightarrow> ParsedElement list \<Rightarrow> nat \<Rightarrow> js_error + Mapper" where
  "mapElement m (ParsedElement elId tagName elementType classes children) parentElement =
     (case lookupPreset elementType of
        Inl e \<Rightarrow> Inl e
      | Inr (t, presetId) \<Rightarrow>
          (let (st1, webflowElement) =
                 createElement (store m) (ParsedElement elId tagName elementType classes children)
                   t presetId parentElement;
               m1 = \<lparr>store = st1,
                     createdElements = mapSet (createdElements m) elId webflowElement\<rparr>
           in case mapChildElements m1 children webflowElement of
                Inl e \<Rightarrow> Inl e
              | Inr m2 \<Rightarrow> Inr (m2, webflowElement)))"
| "mapChildElements m [] parentElement = Inr m"
| "mapChildElements m (childElement # rest) parentElement =
     (case mapElement m childElement (Some parentElement) of
        Inl e \<Rightarrow> Inl e
      | Inr (m1, a) \<Rightarrow> mapChildElements m1 rest parentElement)"

text \<open>mapToWebflow: the map of created elements is cleared, then the tree is mapped from its
  root. The objects of an earlier run stay in the store, unreferenced.\<close>

definition mapToWebflow :: "Mapper \<Rightarrow> ParsedElement \<Rightarrow> js_error + (Mapper \<times> nat)" where
  "mapToWebflow m parsedStructure = mapElement (m\<lparr>createdElements := []\<rparr>) parsedStructure None"

text \<open>applyStyles: \<open>Object.assign(webflowElement.styles, styles)\<close>\<close>

definition applyStyles :: "Mapper \<Rightarrow> nat \<Rightarrow> string jsobject \<Rightarrow> Mapper" where
  "applyStyles m a styles =
     m\<lparr>store := (store m)[a := (store m ! a)\<lparr>we_styles :=
          fold (\<lambda>(k, v) obj. objSet obj k v) styles (we_styles (store m ! a))\<rparr>]\<rparr>"

text \<open>applyClass; no function of the repository calls it.\<close>

definition applyClass :: "Mapper \<Rightarrow> nat \<Rightarrow> string \<Rightarrow> Mapper" where
  "applyClass m a className =
     m\<lparr>store := (store m)[a := (store m ! a)\<lparr>we_classes :=
          Some ((case we_classes (store m ! a) of None \<Rightarrow> [] | Some cs \<Rightarrow> cs) @ [className])\<rparr>]\<rparr>"

definition getAllWebflowElements :: "Mapper \<Rightarrow> nat list" where
  "getAllWebflowElements m = map snd (createdElements m)"

definition getWebflowElement :: "Mapper \<Rightarrow> string \<Rightarrow> WebflowElement option" where
  "getWebflowElement m parsedElementId =
     (case mapGet (createdElements m) parsedElementId of
        None \<Rightarrow> None
      | Some a \<Rightarrow> Some (store m ! a))"

section \<open>ConversionManager\<close>

fun preGenerateClassNames :: "ClassNamingSystem \<Rightarrow> ParsedElement \<Rightarrow> ClassNamingSystem" where
  "preGenerateClassNames r (ParsedElement elId tagName elementType classes children) =
     fold (\<lambda>child r'. preGenerateClassNames r' child) children
       (fold (\<lambda>className r'. fst (generateClassName r' className)) classes r)"

record ProcessedRule = StyleRule +
  originalSelector :: string

record ProcessedMediaQuery =
  pquery :: string
  prules :: "ProcessedRule list"

record ProcessedCss =
  pstyleRules :: "ProcessedRule list"
  pmediaQueries :: "ProcessedMediaQuery list"

text \<open>One step of the two loops of processCssClasses:
  \<open>{...rule, selector: transformedSelector, originalSelector: rule.selector}\<close>\<close>

definition processOneRule :: "ClassNamingSystem \<Rightarrow> StyleRule \<Rightarrow> ClassNamingSystem \<times> ProcessedRule" where
  "processOneRule r rule =
     (let (r1, transformedSelector) = transformSelector r (selector rule)
      in (r1, \<lparr>selector = transformedSelector, specificity = specificity rule,
               properties = properties rule, originalSelector = selector rule\<rparr>))"

fun processRules :: "ClassNamingSystem \<Rightarrow> StyleRule list \<Rightarrow> ClassNamingSystem \<times> ProcessedRule list" where
  "processRules r [] = (r, [])"
| "processRules r (rule # rest) =
     (let (r1, p) = processOneRule r rule; (r2, ps) = processRules r1 rest in (r2, p # ps))"

fun processMediaQueries ::
  "ClassNamingSystem \<Rightarrow> MediaQuery list \<Rightarrow> ClassNamingSystem \<times> ProcessedMediaQuery list" where
  "processMediaQueries r [] = (r, [])"
| "processMediaQueries r (mediaQuery # rest) =
     (let (r1, ps) = processRules r (rules mediaQuery);
          (r2, qs) = processMediaQueries r1 rest
      in (r2, \<lparr>pquery = query mediaQuery, prules = ps\<rparr> # qs))"

definition processCssClasses :: "ClassNamingSystem \<Rightarrow> ParsedCss \<Rightarrow> ClassNamingSystem \<times> ProcessedCss" where
  "processCssClasses r parsedCss =
     (let (r1, rs) = processRules r (styleRules parsedCss);
          (r2, qs) = processMediaQueries r1 (mediaQueries parsedCss)
      in (r2, \<lparr>pstyleRules = rs, pmediaQueries = qs\<rparr>))"

text \<open>
  The grouping of the style rules by selector in applyStylesToElements. The groups are
  properties of a plain object: for a selector named like a member of \<open>Object.prototype\<close> the
  test \<open>!stylesBySelector[rule.selector]\<close> finds that member, and the call of its \<open>push\<close> is a
  TypeError.
\<close>

fun groupBySelector ::
  "ProcessedRule list jsobject \<Rightarrow> ProcessedRule list \<Rightarrow> js_error + ProcessedRule list jsobject" where
  "groupBySelector stylesBySelector [] = Inr stylesBySelector"
| "groupBySelector stylesBySelector (rule # rest) =
     (case objLookup stylesBySelector (selector rule) of
        Own found \<Rightarrow>
          groupBySelector (AList.update (selector rule) (found @ [rule]) stylesBySelector) rest
      | Missing \<Rightarrow> groupBySelector (AList.update (selector rule) [rule] stylesBySelector) rest
      | Inherited \<Rightarrow> Inl (TypeError ''stylesBySelector[rule.selector].push is not a function''))"

text \<open>\<open>if (stylesBySelector[key]) matchingRules.push(...stylesBySelector[key])\<close>\<close>

definition pushGroup ::
  "ProcessedRule list jsobject \<Rightarrow> string \<Rightarrow> ProcessedRule list \<Rightarrow> js_error + ProcessedRule list" where
  "pushGroup stylesBySelector key matchingRules =
     (case objLookup stylesBySelector key of
        Own found \<Rightarrow> Inr (matchingRules @ found)
      | Missing \<Rightarrow> Inr matchingRules
      | Inherited \<Rightarrow> Inl (TypeError ''stylesBySelector[key] is not iterable''))"

fun pushClassGroups ::
  "ProcessedRule list jsobject \<Rightarrow> string list \<Rightarrow> ProcessedRule list \<Rightarrow> js_error + ProcessedRule list" where
  "pushClassGroups stylesBySelector [] matchingRules = Inr matchingRules"
| "pushClassGroups stylesBySelector (className # rest) matchingRules =
     (case pushGroup stylesBySelector (CHR ''.'' # className) matchingRules of
        Inl e \<Rightarrow> Inl e
      | Inr matchingRules' \<Rightarrow> pushClassGroups stylesBySelector rest matchingRules')"

text \<open>findMatchingRules: the groups of the element's classes, then the group of its type in
  lower case, sorted by specificity (the sort is stable).\<close>

definition findMatchingRules ::
  "WebflowElement \<Rightarrow> ProcessedRule list jsobject \<Rightarrow> js_error + ProcessedRule list" where
  "findMatchingRules el stylesBySelector =
     (case (case we_classes el of
              None \<Rightarrow> Inr []
            | Some classes \<Rightarrow> pushClassGroups stylesBySelector classes []) of
        Inl e \<Rightarrow> Inl e
      | Inr matchingRules \<Rightarrow>
          (let typeSelector = toLowerCase (we_type el)
           in case pushGroup stylesBySelector typeSelector matchingRules of
                Inl e \<Rightarrow> Inl e
              | Inr matchingRules' \<Rightarrow> Inr (sort_key specificity matchingRules')))"

text \<open>applyStylesToElement: the properties of the rules merged in order, later rules
  overriding earlier ones, then applied to the element.\<close>

definition mergeProperties :: "ProcessedRule list \<Rightarrow> string jsobject" where
  "mergeProperties rs =
     fold (\<lambda>rule merged. fold (\<lambda>(prop, v) obj. objSet obj prop v) (properties rule) merged) rs []"

definition applyStylesToElement :: "Mapper \<Rightarrow> nat \<Rightarrow> ProcessedRule list \<Rightarrow> Mapper" where
  "applyStylesToElement m a rs = applyStyles m a (mergeProperties rs)"

fun applyToAll ::
  "Mapper \<Rightarrow> ProcessedRule list jsobject \<Rightarrow> nat list \<Rightarrow> js_error + Mapper" where
  "applyToAll m stylesBySelector [] = Inr m"
| "applyToAll m stylesBySelector (a # rest) =
     (case findMatchingRules (store m ! a) stylesBySelector of
        Inl e \<Rightarrow> Inl e
      | Inr matchingRules \<Rightarrow>
          applyToAll (if matchingRules \<noteq> [] then applyStylesToElement m a matchingRules else m)
            stylesBySelector rest)"

definition applyStylesToElements :: "Mapper \<Rightarrow> ProcessedCss \<Rightarrow> js_error + Mapper" where
  "applyStylesToElements m processedCss =
     (case groupBySelector [] (pstyleRules processedCss) of
        Inl e \<Rightarrow> Inl e
      | Inr stylesBySelector \<Rightarrow> applyToAll m stylesBySelector (getAllWebflowElements m))"

record ConversionResult =
  mapper :: Mapper
  webflowElements :: nat
  classMapping :: "string jsobject"

text \<open>
  convert on a new ConversionManager, for the option \<open>prefix\<close> (absent or empty: the
  default prefix), the body element of the parsed markup and the root nodes of the parsed
  stylesheet. The progress callbacks are left out. The result is the error thrown, or the mapper
  with its store, the address of the root element and the class map.
\<close>

definition convert :: "string option \<Rightarrow> element \<Rightarrow> css_node list \<Rightarrow> js_error + ConversionResult" where
  "convert optPrefix htmlBody cssRoot =
     (let classNamingSystem =
            (case optPrefix of
               None \<Rightarrow> newClassNamingSystem ''html2wf-''
             | Some p \<Rightarrow> if p \<noteq> [] then newClassNamingSystem p else newClassNamingSystem ''html2wf-'');
          parsedHtml = HTMLParser_parse htmlBody;
          parsedCss = CSSParser_parse cssRoot;
          r1 = preGenerateClassNames classNamingSystem parsedHtml;
          (r2, processedCss) = processCssClasses r1 parsedCss
      in case mapToWebflow \<lparr>store = [], createdElements = []\<rparr> parsedHtml of
           Inl e \<Rightarrow> Inl e
         | Inr (m, root) \<Rightarrow>
             (case applyStylesToElements m processedCss of
                Inl e \<Rightarrow> Inl e
              | Inr m' \<Rightarrow>
                  Inr \<lparr>mapper = m', webflowElements = root, classMapping = getAllClassMappings r2\<rparr>))"

text \<open>
  The markup \<open><div class="container"><p class="text">Hi</p></div>\<close> as cheerio loads it
  (inside a body element) and the stylesheet
  \<open>.container{width:100%} p{color:red} .text{color:blue}\<close> as postcss parses it.
\<close>

definition scenarioBody :: element where
  "scenarioBody =
     Element ''body'' []
       [Element ''div'' [(''class'', ''container'')] [Element ''p'' [(''class'', ''text'')] []]]"

definition scenarioCss :: "css_node list" where
  "scenarioCss =
     [Rule ''.container'' [Decl ''width'' ''100%''],
      Rule ''p'' [Decl ''color'' ''red''],
      Rule ''.text'' [Decl ''color'' ''blue'']]"

section \<open>Properties of the specificity calculator\<close>

text \<open>
  C3. The claim: the specificity is 100 per id token, 10 per class, attribute or pseudo-class token
  and 1 per bare tag name or pseudo-element token, so that \<open>.x\<close> weighs exactly 10. The third
  pattern of the code matches every run of identifier characters, also the name inside a class
  token: on \<open>.x\<close> the code finds one class token and one element \<open>x\<close>, and returns 11.
  In the same way an id token weighs 101, and the pseudo-element \<open>::before\<close> weighs 11, since
  the second pattern finds the pseudo-class \<open>:before\<close> in it. Only a bare tag name weighs
  what the claim says.
\<close>

theorem C3_single_class_is_11:
  "matchClasses ''.x'' = [''.x''] \<and> matchElements ''.x'' = [''x''] \<and>
   calculateSpecificity ''.x'' = 11 \<and>
   calculateSpecificity ''#a'' = 101 \<and>
   matchClasses ''::before'' = ['':before''] \<and> matchElements ''::before'' = [''::before''] \<and>
   calculateSpecificity ''::before'' = 11 \<and>
   calculateSpecificity ''p'' = 1"
  by (simp add: calculateSpecificity_def char_class_defs)

text \<open>
  C4. The specificity of \<open>#a\<close> is strictly greater than that of nine chained class tokens and is
  not greater than that of ten chained class tokens.
\<close>

theorem C4_crossover_at_ten_classes:
  "calculateSpecificity ''.a.b.c.d.e.f.g.h.i'' < calculateSpecificity ''#a'' \<and>
   \<not> (calculateSpecificity ''.a.b.c.d.e.f.g.h.i.j'' < calculateSpecificity ''#a'')"
  by (simp add: calculateSpecificity_def char_class_defs)


section \<open>Properties of the naming registry\<close>

lemma mapGet_mapSet_same: "mapGet (mapSet m k v) k = Some v"
  by (simp add: mapGet_def mapSet_def update_conv')

lemma mapHas_mapSet_same: "mapHas (mapSet m k v) k"
  by (simp add: mapHas_def mapSet_def update_conv')

lemma length_mapSet: "length (mapSet m k v) \<le> length m + 1"
  unfolding mapSet_def by (induction m) auto

lemma generateClassName_registered:
  "mapHas (classMap (fst (generateClassName r s))) s"
  by (simp add: generateClassName_def Let_def mapHas_mapSet_same)

lemma generateClassName_known:
  "mapHas (classMap r) s \<Longrightarrow> generateClassName r s = (r, the (mapGet (classMap r) s))"
  by (simp add: generateClassName_def)

lemma generateClassName_result:
  "mapGet (classMap (fst (generateClassName r s))) s = Some (snd (generateClassName r s))"
proof (cases "mapHas (classMap r) s")
  case True
  then show ?thesis
    by (auto simp: generateClassName_def mapHas_def mapGet_def)
next
  case False
  then show ?thesis
    by (simp add: generateClassName_def Let_def mapGet_mapSet_same)
qed

text \<open>
  C6. For every string and every registry state, a second call of generateClassName with the same
  string returns the same name and leaves the registry as the first call left it; however often
  the call is repeated, the registry is the one after the first call, and each of its maps has at
  most one entry more than before.
\<close>

theorem C6_generateClassName_idempotent:
  "snd (generateClassName (fst (generateClassName r s)) s) = snd (generateClassName r s) \<and>
   fst (generateClassName (fst (generateClassName r s)) s) = fst (generateClassName r s) \<and>
   ((\<lambda>q. fst (generateClassName q s)) ^^ Suc n) r = fst (generateClassName r s) \<and>
   length (classMap (fst (generateClassName r s))) \<le> length (classMap r) + 1 \<and>
   length (reverseMap (fst (generateClassName r s))) \<le> length (reverseMap r) + 1"
proof -
  let ?r1 = "fst (generateClassName r s)"
  have again: "generateClassName ?r1 s = (?r1, snd (generateClassName r s))"
    using generateClassName_known [OF generateClassName_registered [of r s]]
    by (simp add: generateClassName_result)
  have iter: "((\<lambda>q. fst (generateClassName q s)) ^^ Suc n) r = ?r1"
  proof (induction n)
    case 0
    show ?case by simp
  next
    case (Suc n)
    have "((\<lambda>q. fst (generateClassName q s)) ^^ Suc (Suc n)) r
          = fst (generateClassName (((\<lambda>q. fst (generateClassName q s)) ^^ Suc n) r) s)"
      by simp
    also have "\<dots> = fst (generateClassName ?r1 s)" by (simp only: Suc.IH)
    also have "\<dots> = ?r1" by (simp add: again)
    finally show ?case .
  qed
  have len1: "length (classMap ?r1) \<le> length (classMap r) + 1"
    using length_mapSet by (auto simp: generateClassName_def Let_def)
  have len2: "length (reverseMap ?r1) \<le> length (reverseMap r) + 1"
    using length_mapSet by (auto simp: generateClassName_def Let_def)
  from again iter len1 len2 show ?thesis by simp
qed

definition extends :: "ClassNamingSystem \<Rightarrow> ClassNamingSystem \<Rightarrow> bool" where
  "extends r r' = (\<forall>k g. mapGet (classMap r) k = Some g \<longrightarrow> mapGet (classMap r') k = Some g)"

definition renderClass :: "ClassNamingSystem \<Rightarrow> string \<Rightarrow> string" where
  "renderClass r className =
     (case getGeneratedClassName r className of
        Some generatedName \<Rightarrow> CHR ''.'' # generatedName
      | None \<Rightarrow> CHR ''.'' # className)"

fun renderSegment :: "ClassNamingSystem \<Rightarrow> segment \<Rightarrow> string" where
  "renderSegment r (Lit c) = [c]"
| "renderSegment r (ClassTok n) = renderClass r n"

fun allKnown :: "ClassNamingSystem \<Rightarrow> segment list \<Rightarrow> bool" where
  "allKnown r [] = True"
| "allKnown r (Lit c # segs) = allKnown r segs"
| "allKnown r (ClassTok n # segs) = (hasGeneratedClassName r n \<and> allKnown r segs)"

lemma extends_refl: "extends r r"
  by (simp add: extends_def)

lemma extends_trans: "extends r r1 \<Longrightarrow> extends r1 r2 \<Longrightarrow> extends r r2"
  by (simp add: extends_def)

lemma extends_has: "extends r r' \<Longrightarrow> hasGeneratedClassName r n \<Longrightarrow> hasGeneratedClassName r' n"
  by (auto simp: extends_def hasGeneratedClassName_def mapHas_def mapGet_def)

lemma extends_render:
  "extends r r' \<Longrightarrow> hasGeneratedClassName r n \<Longrightarrow> renderClass r' n = renderClass r n"
  by (auto simp: extends_def hasGeneratedClassName_def mapHas_def mapGet_def renderClass_def
      getGeneratedClassName_def)

lemma generateClassName_extends: "extends r (fst (generateClassName r n))"
  by (auto simp: extends_def generateClassName_def Let_def mapHas_def mapGet_def mapSet_def
      update_conv')

lemma replaceClass_extends: "extends r (fst (replaceClass r n))"
  by (simp add: replaceClass_def Let_def extends_refl generateClassName_extends)

lemma replaceClass_has: "hasGeneratedClassName (fst (replaceClass r n)) n"
  by (simp add: replaceClass_def Let_def hasGeneratedClassName_def generateClassName_registered)

lemma replaceClass_out: "snd (replaceClass r n) = renderClass (fst (replaceClass r n)) n"
  by (simp add: replaceClass_def Let_def renderClass_def)

lemma replaceClass_known:
  "hasGeneratedClassName r n \<Longrightarrow> replaceClass r n = (r, renderClass r n)"
  by (simp add: replaceClass_def renderClass_def)

lemma replaceAll_extends: "extends r (fst (replaceAll r segs))"
proof (induction segs arbitrary: r)
  case Nil
  show ?case by (simp add: extends_refl)
next
  case (Cons seg segs)
  show ?case
  proof (cases seg)
    case (Lit c)
    with Cons.IH [of r] show ?thesis by (simp add: split_beta)
  next
    case (ClassTok n)
    have "extends r (fst (replaceClass r n))" by (rule replaceClass_extends)
    moreover have "extends (fst (replaceClass r n)) (fst (replaceAll (fst (replaceClass r n)) segs))"
      by (rule Cons.IH)
    ultimately show ?thesis using ClassTok
      by (simp add: split_beta extends_trans)
  qed
qed

lemma allKnown_extends: "extends r r' \<Longrightarrow> allKnown r segs \<Longrightarrow> allKnown r' segs"
  by (induction r segs rule: allKnown.induct) (auto dest: extends_has)

lemma render_extends:
  "extends r r' \<Longrightarrow> allKnown r segs \<Longrightarrow>
   concat (map (renderSegment r') segs) = concat (map (renderSegment r) segs)"
  by (induction r segs rule: allKnown.induct) (auto simp: extends_render)

lemma replaceAll_known:
  "allKnown r segs \<Longrightarrow> replaceAll r segs = (r, concat (map (renderSegment r) segs))"
  by (induction r segs rule: allKnown.induct) (auto simp: replaceClass_known)

lemma replaceAll_registers:
  "allKnown (fst (replaceAll r segs)) segs \<and>
   snd (replaceAll r segs) = concat (map (renderSegment (fst (replaceAll r segs))) segs)"
proof (induction segs arbitrary: r)
  case Nil
  show ?case by simp
next
  case (Cons seg segs)
  show ?case
  proof (cases seg)
    case (Lit c)
    with Cons.IH [of r] show ?thesis by (simp add: split_beta)
  next
    case (ClassTok n)
    let ?r1 = "fst (replaceClass r n)"
    let ?r2 = "fst (replaceAll ?r1 segs)"
    have ih: "allKnown ?r2 segs \<and> snd (replaceAll ?r1 segs) = concat (map (renderSegment ?r2) segs)"
      by (rule Cons.IH)
    have ext: "extends ?r1 ?r2" by (rule replaceAll_extends)
    have has1: "hasGeneratedClassName ?r1 n" by (rule replaceClass_has)
    have has2: "hasGeneratedClassName ?r2 n" using ext has1 by (rule extends_has)
    have out: "snd (replaceClass r n) = renderClass ?r2 n"
      using extends_render [OF ext has1] by (simp add: replaceClass_out)
    from ih has2 out ClassTok show ?thesis
      by (simp add: split_beta)
  qed
qed

text \<open>
  C1, as amended. Rewriting the same original selector text once more through the registry that
  the first rewrite left behind returns the same rewritten text and leaves the registry
  unchanged. (Every class token of the text is registered by the first pass, and a registered
  name keeps its generated name.)
\<close>

theorem C1_transformSelector_repeatable:
  "transformSelector (fst (transformSelector r s)) s
     = (fst (transformSelector r s), snd (transformSelector r s))"
proof -
  let ?segs = "classTokens s"
  let ?r1 = "fst (replaceAll r ?segs)"
  have "replaceAll ?r1 ?segs = (?r1, concat (map (renderSegment ?r1) ?segs))"
    using replaceAll_registers [of r ?segs] by (intro replaceAll_known) simp
  also have "concat (map (renderSegment ?r1) ?segs) = snd (replaceAll r ?segs)"
    using replaceAll_registers [of r ?segs] by simp
  finally show ?thesis by (simp add: transformSelector_def)
qed

text \<open>
  C1, as stated, fails: the claim is that rewriting the result of a rewrite returns it unchanged.
  With the prefix \<open>wf-\<close> the selector \<open>.a\<close> is rewritten to \<open>.wf-a\<close>; rewriting that text
  registers \<open>wf-a\<close> as a new original name and gives \<open>.wf-wf-a\<close>.
\<close>

theorem C1_double_prefix_counterexample:
  "snd (transformSelector (newClassNamingSystem ''wf-'') ''.a'') = ''.wf-a'' \<and>
   snd (transformSelector (fst (transformSelector (newClassNamingSystem ''wf-'') ''.a''))
         (snd (transformSelector (newClassNamingSystem ''wf-'') ''.a''))) = ''.wf-wf-a'' \<and>
   snd (transformSelector (fst (transformSelector (newClassNamingSystem ''wf-'') ''.a''))
         (snd (transformSelector (newClassNamingSystem ''wf-'') ''.a'')))
     \<noteq> snd (transformSelector (newClassNamingSystem ''wf-'') ''.a'')"
  by code_simp

text \<open>
  C5. The claim: the two maps are mutual inverses and
  getOriginalClassName (getGeneratedClassName s) is s for every registered string s. After
  registering the empty string in a new registry, the reverse map holds the entry
  from \<open>html2wf-class-0\<close> to the empty string, but getOriginalClassName returns null for \<open>html2wf-class-0\<close>:
  \<open>|| null\<close> takes the empty original name for a missing one.
\<close>

theorem C5_empty_name_round_trip:
  "getGeneratedClassName (fst (generateClassName (newClassNamingSystem ''html2wf-'') '''')) ''''
     = Some ''html2wf-class-0'' \<and>
   mapGet (reverseMap (fst (generateClassName (newClassNamingSystem ''html2wf-'') ''''))) ''html2wf-class-0''
     = Some '''' \<and>
   getOriginalClassName (fst (generateClassName (newClassNamingSystem ''html2wf-'') '''')) ''html2wf-class-0''
     = None"
  by code_simp

section \<open>The conversion end to end\<close>

text \<open>The styles of the element created for a parsed element, in the result of convert.\<close>

definition stylesOf :: "js_error + ConversionResult \<Rightarrow> string \<Rightarrow> string jsobject option" where
  "stylesOf res parsedElementId =
     (case res of
        Inl e \<Rightarrow> None
      | Inr c \<Rightarrow> map_option we_styles (getWebflowElement (mapper c) parsedElementId))"

text \<open>The stylesheet
  \<open>@media (max-width: 768px) { @supports (display: grid) { div { color: red } } }\<close>
  and the markup \<open><div></div>\<close>.\<close>

definition nestedMediaCss :: "css_node list" where
  "nestedMediaCss =
     [AtRule ''media'' ''(max-width: 768px)''
        [AtRule ''supports'' ''(display: grid)'' [Rule ''div'' [Decl ''color'' ''red'']]]]"

definition divBody :: element where
  "divBody = Element ''body'' [] [Element ''div'' [] []]"

text \<open>
  C2. The claim: converting the markup \<open><div class="container"><p class="text">Hi</p></div>\<close>
  with the stylesheet \<open>.container{width:100%} p{color:red} .text{color:blue}\<close> and the prefix
  \<open>wf-\<close> gives the class map container to wf-container, text to wf-text, and the style
  \<open>color: blue\<close> on the p element. The code gives that class map, and no style at all on the p
  element (parsed id el-2): the created element has the type \<open>paragraph\<close>, which is no selector
  of the stylesheet, and it has no field classes, since nothing calls applyClass.
\<close>

theorem C2_scenario:
  "map_sum id classMapping (convert (Some ''wf-'') scenarioBody scenarioCss)
     = Inr [(''container'', ''wf-container''), (''text'', ''wf-text'')] \<and>
   map_sum id (\<lambda>c. map_option we_type (getWebflowElement (mapper c) ''el-2''))
       (convert (Some ''wf-'') scenarioBody scenarioCss) = Inr (Some ''paragraph'') \<and>
   map_sum id (\<lambda>c. map_option we_classes (getWebflowElement (mapper c) ''el-2''))
       (convert (Some ''wf-'') scenarioBody scenarioCss) = Inr (Some None) \<and>
   stylesOf (convert (Some ''wf-'') scenarioBody scenarioCss) ''el-2'' = Some []"
  by code_simp

text \<open>Given an element that carries the tag name as type and the generated class, the
  matching and the merge of the code do resolve the scenario to \<open>color: blue\<close>.\<close>

lemma cascade_on_tagged_element:
  "map_sum id mergeProperties
     (findMatchingRules
        \<lparr>we_id = ''webflow-el-2'', we_type = ''p'', we_preset = Some ''preset-paragraph'',
         we_styles = [], we_children = [], we_parent = Some ''webflow-el-1'',
         we_classes = Some [''wf-text'']\<rparr>
        [(''.wf-container'', [\<lparr>selector = ''.wf-container'', specificity = 11,
             properties = [(''width'', ''100%'')], originalSelector = ''.container''\<rparr>]),
         (''p'', [\<lparr>selector = ''p'', specificity = 1,
             properties = [(''color'', ''red'')], originalSelector = ''p''\<rparr>]),
         (''.wf-text'', [\<lparr>selector = ''.wf-text'', specificity = 11,
             properties = [(''color'', ''blue'')], originalSelector = ''.text''\<rparr>])])
   = Inr [(''color'', ''blue'')]"
  by code_simp

text \<open>
  C8. The claim: a rule that appears only inside an @media block is never placed in the top-level
  styleRules, and the style resolved for an element does not depend on it. CSSParser.parse skips
  a rule only when its parent node is the @media block itself: the rule \<open>div\<close> inside
  \<open>@supports\<close> inside \<open>@media\<close> is placed in styleRules (and in the media query's rules), and
  the div element receives its declaration unconditionally.
\<close>

theorem C8_nested_media_rule_leaks:
  "map selector (styleRules (CSSParser_parse nestedMediaCss)) = [''div''] \<and>
   map (\<lambda>q. (query q, map selector (rules q))) (mediaQueries (CSSParser_parse nestedMediaCss))
     = [(''(max-width: 768px)'', [''div''])] \<and>
   stylesOf (convert None divBody nestedMediaCss) ''el-1'' = Some [(''color'', ''red'')] \<and>
   stylesOf (convert None divBody []) ''el-1'' = Some []"
  by code_simp

section \<open>The class list of a parsed element\<close>

text \<open>
  C9, as stated, fails: the claim is that the class list has no duplicates, so that the attribute
  \<open>a b a\<close> yields a, b. The code splits at white space and drops the empty pieces only: the
  list is a, b, a.
\<close>

theorem C9_duplicates_kept:
  "pe_classes (HTMLParser_parse (Element ''body'' [(''class'', ''a b a'')] [])) = [''a'', ''b'', ''a''] \<and>
   \<not> distinct (pe_classes (HTMLParser_parse (Element ''body'' [(''class'', ''a b a'')] [])))"
  by code_simp

text \<open>
  A class attribute, read from left to right, is white space (possibly none), then names, each
  followed by white space; the white space between two names is not empty, that after the last
  name may be. A name is not empty and holds no white space. \<open>joinNames\<close> writes such a
  sequence out, \<open>separated\<close> says that the pairs of a name and the white space after it are of
  this kind.
\<close>

fun joinNames :: "('c list \<times> 'c list) list \<Rightarrow> 'c list" where
  "joinNames [] = []"
| "joinNames ((t, ws) # ps) = t @ ws @ joinNames ps"

definition isName :: "('c \<Rightarrow> bool) \<Rightarrow> 'c list \<Rightarrow> bool" where
  "isName sp t = (t \<noteq> [] \<and> list_all (\<lambda>c. \<not> sp c) t)"

fun separated :: "('c \<Rightarrow> bool) \<Rightarrow> ('c list \<times> 'c list) list \<Rightarrow> bool" where
  "separated sp [] = True"
| "separated sp [(t, ws)] = (isName sp t \<and> list_all sp ws)"
| "separated sp ((t, ws) # p # ps) =
     (isName sp t \<and> ws \<noteq> [] \<and> list_all sp ws \<and> separated sp (p # ps))"

lemma splitAtRuns_name:
  "list_all (\<lambda>c. \<not> sp c) t \<Longrightarrow> splitAtRuns sp piece (t @ rest) = splitAtRuns sp (piece @ t) rest"
  by (induction t arbitrary: piece) auto

lemma splitAtRuns_spaces:
  assumes "ws \<noteq> []" and "list_all sp ws"
  shows "splitAtRuns sp piece (ws @ rest) = piece # splitAtRuns sp [] (dropWhile sp rest)"
proof -
  from assms obtain w ws' where ws: "ws = w # ws'" and w: "sp w" and ws': "list_all sp ws'"
    by (cases ws) auto
  from ws' have "dropWhile sp (ws' @ rest) = dropWhile sp rest"
    by (intro dropWhile_append2) (simp add: list_all_iff)
  with ws w show ?thesis by simp
qed

lemma separated_head:
  assumes "separated sp (p # ps)"
  shows "isName sp (fst p)"
  using assms by (cases p; cases ps) auto

lemma joinNames_starts:
  assumes "separated sp pairs" and "pairs \<noteq> []"
  shows "\<exists>c rest. joinNames pairs = c # rest \<and> \<not> sp c"
proof -
  from assms obtain t ws ps where pairs: "pairs = (t, ws) # ps" by (cases pairs) auto
  with assms(1) have "isName sp t" using separated_head [of sp "(t, ws)" ps] by simp
  then obtain c cs where "t = c # cs" and "\<not> sp c"
    by (cases t) (auto simp: isName_def)
  with pairs show ?thesis by simp
qed

lemma dropWhile_joinNames:
  assumes "separated sp pairs"
  shows "dropWhile sp (joinNames pairs) = joinNames pairs"
proof (cases "pairs = []")
  case True
  then show ?thesis by simp
next
  case False
  from joinNames_starts [OF assms False] show ?thesis by auto
qed

lemma pieces_of_joinNames:
  "separated sp pairs \<Longrightarrow> pairs \<noteq> [] \<Longrightarrow>
   filter (\<lambda>piece. piece \<noteq> []) (splitAtRuns sp [] (joinNames pairs)) = map fst pairs"
proof (induction sp pairs rule: separated.induct)
  case (1 sp)
  then show ?case by simp
next
  case (2 sp t ws)
  then have name: "isName sp t" and ws: "list_all sp ws" by simp_all
  from name have tok: "list_all (\<lambda>c. \<not> sp c) t" and ne: "t \<noteq> []"
    by (simp_all add: isName_def)
  have start: "splitAtRuns sp [] (t @ ws) = splitAtRuns sp t ws"
    using splitAtRuns_name [OF tok, of "[]" ws] by simp
  show ?case
  proof (cases "ws = []")
    case True
    with start ne show ?thesis by simp
  next
    case False
    have "splitAtRuns sp t ws = t # splitAtRuns sp [] (dropWhile sp [])"
      using splitAtRuns_spaces [OF False ws, of t "[]"] by simp
    with start ne show ?thesis by simp
  qed
next
  case (3 sp t ws p ps)
  then have name: "isName sp t" and wne: "ws \<noteq> []" and ws: "list_all sp ws"
    and rest: "separated sp (p # ps)"
    by simp_all
  from name have tok: "list_all (\<lambda>c. \<not> sp c) t" and ne: "t \<noteq> []"
    by (simp_all add: isName_def)
  let ?R = "joinNames (p # ps)"
  have "splitAtRuns sp [] (joinNames ((t, ws) # p # ps)) = splitAtRuns sp [] (t @ ws @ ?R)"
    by simp
  also have "\<dots> = splitAtRuns sp t (ws @ ?R)"
    using splitAtRuns_name [OF tok, of "[]"] by simp
  also have "\<dots> = t # splitAtRuns sp [] (dropWhile sp ?R)"
    by (rule splitAtRuns_spaces [OF wne ws])
  also have "dropWhile sp ?R = ?R"
    by (rule dropWhile_joinNames [OF rest])
  finally show ?case using ne "3.IH" [OF rest] by simp
qed

lemma classNamesOf_joined:
  assumes "list_all sp lead" and "separated sp pairs"
  shows "classNamesOf sp (Some (lead @ joinNames pairs)) = map fst pairs"
proof (cases "pairs = []")
  case True
  show ?thesis
  proof (cases "lead = []")
    case True
    with \<open>pairs = []\<close> show ?thesis by (simp add: classNamesOf_def)
  next
    case False
    have "splitAtRuns sp [] (lead @ []) = [] # splitAtRuns sp [] (dropWhile sp [])"
      by (rule splitAtRuns_spaces [OF False assms(1)])
    with False \<open>pairs = []\<close> show ?thesis by (simp add: classNamesOf_def)
  qed
next
  case False
  let ?R = "joinNames pairs"
  have R: "filter (\<lambda>piece. piece \<noteq> []) (splitAtRuns sp [] ?R) = map fst pairs"
    by (rule pieces_of_joinNames [OF assms(2) False])
  have nonempty: "?R \<noteq> []"
    using joinNames_starts [OF assms(2) False] by auto
  show ?thesis
  proof (cases "lead = []")
    case True
    with R nonempty show ?thesis by (simp add: classNamesOf_def)
  next
    case lead: False
    have "splitAtRuns sp [] (lead @ ?R) = [] # splitAtRuns sp [] (dropWhile sp ?R)"
      by (rule splitAtRuns_spaces [OF lead assms(1)])
    also have "dropWhile sp ?R = ?R"
      by (rule dropWhile_joinNames [OF assms(2)])
    finally show ?thesis using R lead by (simp add: classNamesOf_def)
  qed
qed

text \<open>Every string is white space followed by names with white space after each.\<close>

lemma names_exist:
  "s = [] \<or> \<not> sp (hd s) \<Longrightarrow> \<exists>pairs. s = joinNames pairs \<and> separated sp pairs"
proof (induction s rule: length_induct)
  case (1 s)
  note IH = "1.IH" [rule_format]
  show ?case
  proof (cases s)
    case Nil
    have "[] = joinNames [] \<and> separated sp []" by simp
    with Nil show ?thesis by blast
  next
    case (Cons c cs)
    with "1.prems" have c: "\<not> sp c" by simp
    let ?t = "takeWhile (\<lambda>x. \<not> sp x) s"
    let ?s' = "dropWhile (\<lambda>x. \<not> sp x) s"
    let ?ws = "takeWhile sp ?s'"
    let ?rest = "dropWhile sp ?s'"
    have t: "isName sp ?t"
      using Cons c by (auto simp: isName_def list_all_iff dest: set_takeWhileD)
    have ws: "list_all sp ?ws"
      by (auto simp: list_all_iff dest: set_takeWhileD)
    have split: "s = ?t @ ?ws @ ?rest" by simp
    have "length ?s' < length s"
      using Cons c length_dropWhile_le [of "\<lambda>x. \<not> sp x" cs] by simp
    then have shorter: "length ?rest < length s"
      using length_dropWhile_le [of sp ?s'] by simp
    have head: "?rest = [] \<or> \<not> sp (hd ?rest)"
      using hd_dropWhile [of sp ?s'] by blast
    from IH [OF shorter head] obtain ps where ps: "?rest = joinNames ps" "separated sp ps"
      by blast
    have "separated sp ((?t, ?ws) # ps)"
    proof (cases ps)
      case Nil
      with t ws show ?thesis by simp
    next
      case (Cons p ps')
      with ps have "?rest \<noteq> []"
        using joinNames_starts [of sp ps] by auto
      then have "?s' \<noteq> []" by (metis dropWhile.simps(1))
      then have "sp (hd ?s')"
        using hd_dropWhile [of "\<lambda>x. \<not> sp x" s] by simp
      with \<open>?s' \<noteq> []\<close> have "?ws \<noteq> []" by (cases ?s') auto
      with t ws ps(2) Cons show ?thesis by simp
    qed
    moreover have "s = joinNames ((?t, ?ws) # ps)"
      using split ps(1) by simp
    ultimately show ?thesis by blast
  qed
qed

lemma decomposition_exists:
  "\<exists>lead pairs. v = lead @ joinNames pairs \<and> list_all sp lead \<and> separated sp pairs"
proof -
  let ?lead = "takeWhile sp v"
  let ?s = "dropWhile sp v"
  have "?s = [] \<or> \<not> sp (hd ?s)"
    using hd_dropWhile [of sp v] by blast
  from names_exist [of ?s sp, OF this] obtain pairs where "?s = joinNames pairs" "separated sp pairs"
    by blast
  moreover have "list_all sp ?lead"
    by (auto simp: list_all_iff dest: set_takeWhileD)
  moreover have "v = ?lead @ ?s" by simp
  ultimately show ?thesis by metis
qed

lemma parseElement_classes:
  "pe_classes (fst (parseElement n (Element tagName attribs kids)))
     = classNamesOf isSpace (map_of attribs ''class'')"
  by (simp add: split_beta Let_def parseClasses_def)

text \<open>
  C9, as amended. For every markup element the class list holds the class names of the class
  attribute in the order written, repeated names included. An element without a class attribute
  has the empty list. Every attribute value is white space followed by names with white space
  after each (one run of white space per gap, of any length and of any white-space characters),
  and for every such reading of the value the class list is the sequence of those names. The
  last three parts say the same of the expression of the source for any type of code units and
  any white-space class, so also for UTF-16 code units and the whole class \<open>\s\<close>.
\<close>

theorem C9_classes_in_order_with_repeats:
  "(map_of attribs ''class'' = None \<longrightarrow>
      pe_classes (fst (parseElement n (Element tagName attribs kids))) = []) \<and>
   (map_of attribs ''class'' = Some (lead @ joinNames pairs) \<and> list_all isSpace lead \<and>
      separated isSpace pairs \<longrightarrow>
      pe_classes (fst (parseElement n (Element tagName attribs kids))) = map fst pairs) \<and>
   (\<exists>lead pairs. v = lead @ joinNames pairs \<and> list_all sp lead \<and> separated sp pairs) \<and>
   pe_classes (fst (parseElement n (Element tagName attribs kids)))
     = classNamesOf isSpace (map_of attribs ''class'') \<and>
   classNamesOf sp None = [] \<and>
   (list_all sp lead' \<and> separated sp pairs' \<longrightarrow>
      classNamesOf sp (Some (lead' @ joinNames pairs')) = map fst pairs')"
proof -
  note cls = parseElement_classes [of n tagName attribs kids]
  have a: "map_of attribs ''class'' = None \<longrightarrow>
      pe_classes (fst (parseElement n (Element tagName attribs kids))) = []"
    unfolding cls by (simp add: classNamesOf_def)
  have b: "map_of attribs ''class'' = Some (lead @ joinNames pairs) \<and> list_all isSpace lead \<and>
      separated isSpace pairs \<longrightarrow>
      pe_classes (fst (parseElement n (Element tagName attribs kids))) = map fst pairs"
    unfolding cls using classNamesOf_joined [of isSpace lead pairs] by simp
  have c: "\<exists>lead pairs. v = lead @ joinNames pairs \<and> list_all sp lead \<and> separated sp pairs"
    by (rule decomposition_exists)
  have d: "classNamesOf sp None = []"
    by (simp add: classNamesOf_def)
  have e: "list_all sp lead' \<and> separated sp pairs' \<longrightarrow>
      classNamesOf sp (Some (lead' @ joinNames pairs')) = map fst pairs'"
    using classNamesOf_joined [of sp lead' pairs'] by simp
  from a b c cls d e show ?thesis by blast
qed

text \<open>
  The amended C9 at the attribute \<open>a\<close>, two blanks, \<open>b\<close>, a tab, \<open>a\<close> with a leading blank,
  and at the code units a, U+3000, b, blank, U+2003, a.
\<close>

theorem C9_classes_witness:
  "list_all isSpace '' '' \<and>
   separated isSpace [(''a'', ''  ''), (''b'', [CHR 0x09]), (''a'', [])] \<and>
   pe_classes (fst (parseElement 0
       (Element ''div'' [(''class'', '' '' @ joinNames [(''a'', ''  ''), (''b'', [CHR 0x09]), (''a'', [])])] [])))
     = [''a'', ''b'', ''a''] \<and>
   separated isSpaceUnit [([97], [0x3000]), ([98], [0x20, 0x2003]), ([97], [])] \<and>
   classNamesOf isSpaceUnit (Some [97, 0x3000, 98, 0x20, 0x2003, 97]) = [[97], [98], [97]]"
proof -
  let ?pairs = "[(''a'', ''  ''), (''b'', [CHR 0x09]), (''a'', [])]"
  let ?units = "[([97], [0x3000]), ([98], [0x20, 0x2003]), ([97], [])] :: (nat list \<times> nat list) list"
  have h1: "list_all isSpace '' ''" by code_simp
  have h2: "separated isSpace ?pairs" by code_simp
  have h3: "map_of [(''class'', '' '' @ joinNames ?pairs)] ''class'' = Some ('' '' @ joinNames ?pairs)"
    by simp
  have h4: "separated isSpaceUnit ?units" by (simp add: isName_def isSpaceUnit_def)
  have h5: "list_all isSpaceUnit []" by simp
  note inst = C9_classes_in_order_with_repeats
    [of "[(''class'', '' '' @ joinNames ?pairs)]" 0 "''div''" "[]" "'' ''" ?pairs "[]" isSpaceUnit
      "[]" ?units]
  from inst h1 h2 h3
  have r1: "pe_classes (fst (parseElement 0
       (Element ''div'' [(''class'', '' '' @ joinNames ?pairs)] []))) = map fst ?pairs"
    by blast
  from inst h4 h5
  have r2: "classNamesOf isSpaceUnit (Some ([] @ joinNames ?units)) = map fst ?units"
    by blast
  have r1': "pe_classes (fst (parseElement 0
       (Element ''div'' [(''class'', '' '' @ joinNames ?pairs)] []))) = [''a'', ''b'', ''a'']"
    using r1 by simp
  have r2': "classNamesOf isSpaceUnit (Some [97, 0x3000, 98, 0x20, 0x2003, 97]) = [[97], [98], [97]]"
    using r2 by simp
  from h1 h2 r1' h4 r2' show ?thesis by blast
qed

section \<open>The registry invariant\<close>

text \<open>
  In every registry state reached from a new registry by generateClassName, transformSelector and
  reset, the two maps have pairwise different keys and are mutual inverses, and no generated
  name is empty. So the round trip through the two read accessors returns every registered
  name that is not the empty string.
\<close>

definition registryInv :: "ClassNamingSystem \<Rightarrow> bool" where
  "registryInv r =
     (distinct (map fst (classMap r)) \<and> distinct (map fst (reverseMap r)) \<and>
      list_all (\<lambda>(original, generated). generated \<noteq> []) (classMap r) \<and>
      (\<forall>original generated.
          (mapGet (classMap r) original = Some generated)
            = (mapGet (reverseMap r) generated = Some original)))"

inductive reachable :: "ClassNamingSystem \<Rightarrow> bool" where
  new: "reachable (newClassNamingSystem p)"
| generate: "reachable r \<Longrightarrow> reachable (fst (generateClassName r s))"
| transform: "reachable r \<Longrightarrow> reachable (fst (transformSelector r s))"
| reset: "reachable r \<Longrightarrow> reachable (reset r)"

lemma uniqueLoop_fresh: "\<not> mapHas rm (uniqueLoop rm g suffix u)"
proof (induction rm g suffix u rule: uniqueLoop.induct)
  case (1 rm g suffix u)
  show ?case
  proof (cases "mapHas rm u")
    case True
    from "1.IH" [OF True] True show ?thesis
      by (subst uniqueLoop.simps) simp
  next
    case False
    then show ?thesis
      by (subst uniqueLoop.simps) simp
  qed
qed

lemma uniqueLoop_nonempty: "u \<noteq> [] \<Longrightarrow> uniqueLoop rm g suffix u \<noteq> []"
proof (induction rm g suffix u rule: uniqueLoop.induct)
  case (1 rm g suffix u)
  show ?case
  proof (cases "mapHas rm u")
    case True
    have "g @ ''-'' @ show_nat (suffix + 1) \<noteq> []" by simp
    from "1.IH" [OF True this] True show ?thesis
      by (subst uniqueLoop.simps) simp
  next
    case False
    with "1.prems" show ?thesis
      by (subst uniqueLoop.simps) simp
  qed
qed

lemma registryInv_new: "registryInv (newClassNamingSystem p)"
  by (simp add: registryInv_def newClassNamingSystem_def mapGet_def)

lemma registryInv_reset: "registryInv (reset r)"
  by (simp add: registryInv_def reset_def mapGet_def)

lemma list_all_update:
  "list_all P al \<Longrightarrow> P (k, v) \<Longrightarrow> list_all P (AList.update k v al)"
  by (induction al) auto

lemma registryInv_generateClassName:
  assumes inv: "registryInv r"
  shows "registryInv (fst (generateClassName r n))"
proof (cases "mapHas (classMap r) n")
  case True
  with inv show ?thesis by (simp add: generateClassName_def)
next
  case False
  let ?g = "if n \<noteq> [] \<and> testValidName n then prefix r @ n
            else prefix r @ ''class-'' @ show_nat (counter r)"
  let ?u = "uniqueLoop (reverseMap r) ?g 0 ?g"
  have gne: "?g \<noteq> []"
    by (auto simp: testValidName_def split: list.splits)
  have une: "?u \<noteq> []" by (rule uniqueLoop_nonempty [OF gne])
  have ufresh: "map_of (reverseMap r) ?u = None"
    using uniqueLoop_fresh [of "reverseMap r" ?g 0 ?g] by (simp add: mapHas_def)
  have nfresh: "map_of (classMap r) n = None"
    using False by (simp add: mapHas_def)
  have r1: "fst (generateClassName r n)
              = r\<lparr>classMap := AList.update n ?u (classMap r),
                  reverseMap := AList.update ?u n (reverseMap r),
                  counter := counter r + 1\<rparr>"
    using False by (simp add: generateClassName_def Let_def mapSet_def)
  from inv have d1: "distinct (map fst (classMap r))" and d2: "distinct (map fst (reverseMap r))"
    and ne: "list_all (\<lambda>(original, generated). generated \<noteq> []) (classMap r)"
    and bij: "\<And>original generated.
          (map_of (classMap r) original = Some generated)
            = (map_of (reverseMap r) generated = Some original)"
    by (simp_all add: registryInv_def mapGet_def)
  have bij': "(map_of (AList.update n ?u (classMap r)) original = Some generated)
            = (map_of (AList.update ?u n (reverseMap r)) generated = Some original)"
    for original generated
    using bij [of original generated] ufresh nfresh
    by (auto simp: update_conv')
  show ?thesis
    unfolding r1 registryInv_def
    using d1 d2 ne une bij'
    by (simp add: distinct_update list_all_update mapGet_def)
qed

lemma registryInv_replaceAll: "registryInv r \<Longrightarrow> registryInv (fst (replaceAll r segs))"
proof (induction segs arbitrary: r)
  case Nil
  then show ?case by simp
next
  case (Cons seg segs)
  show ?case
  proof (cases seg)
    case (Lit c)
    with Cons.IH [OF Cons.prems] show ?thesis by (simp add: split_beta)
  next
    case (ClassTok n)
    have "registryInv (fst (replaceClass r n))"
      using Cons.prems by (simp add: replaceClass_def Let_def registryInv_generateClassName)
    from Cons.IH [OF this] ClassTok show ?thesis by (simp add: split_beta)
  qed
qed

lemma reachable_registryInv: "reachable r \<Longrightarrow> registryInv r"
proof (induction rule: reachable.induct)
  case (new p)
  show ?case by (rule registryInv_new)
next
  case (generate r s)
  then show ?case by (simp add: registryInv_generateClassName)
next
  case (transform r s)
  then show ?case by (simp add: transformSelector_def registryInv_replaceAll)
next
  case (reset r)
  show ?case by (rule registryInv_reset)
qed

lemma round_trip_nonempty_name:
  assumes "reachable r" and "hasGeneratedClassName r s" and "s \<noteq> []"
  shows "\<exists>g. getGeneratedClassName r s = Some g \<and> getOriginalClassName r g = Some s"
proof -
  from assms(1) have inv: "registryInv r" by (rule reachable_registryInv)
  from assms(2) obtain g where g: "map_of (classMap r) s = Some g"
    by (auto simp: hasGeneratedClassName_def mapHas_def)
  then have "(s, g) \<in> set (classMap r)" by (rule map_of_SomeD)
  with inv have "g \<noteq> []" by (auto simp: registryInv_def list_all_iff)
  moreover from inv g have "map_of (reverseMap r) g = Some s"
    by (simp add: registryInv_def mapGet_def)
  ultimately show ?thesis using g assms(3)
    by (simp add: getGeneratedClassName_def getOriginalClassName_def orNull_def mapGet_def)
qed

section \<open>Media blocks without nesting\<close>

text \<open>
  When all rules inside an @media block are its direct children and contain declarations only,
  the block adds nothing to styleRules, and the created elements with their styles are the same
  with and without the block.
\<close>

fun leafNode :: "css_node \<Rightarrow> bool" where
  "leafNode (Decl prop v) = True"
| "leafNode (Comment t) = True"
| "leafNode (Rule sel nodes) = False"
| "leafNode (AtRule name params nodes) = False"

fun flatRule :: "css_node \<Rightarrow> bool" where
  "flatRule (Rule sel nodes) = list_all leafNode nodes"
| "flatRule (Decl prop v) = True"
| "flatRule (Comment t) = True"
| "flatRule (AtRule name params nodes) = False"

lemma walkRules_leaf: "leafNode n \<Longrightarrow> walkRules p n = []"
  by (cases n) auto

lemma walkRules_leaves: "list_all leafNode ns \<Longrightarrow> concat (map (walkRules p) ns) = []"
  by (induction ns) (auto simp: walkRules_leaf)

lemma walkRules_flat:
  "list_all flatRule ns \<Longrightarrow>
   filter (\<lambda>(p, sel, nodes). p \<noteq> ParentAtRule ''media'')
     (concat (map (walkRules (ParentAtRule ''media'')) ns)) = []"
proof (induction ns)
  case Nil
  show ?case by simp
next
  case (Cons n ns)
  then show ?case
    by (cases n) (auto simp: walkRules_leaves)
qed

lemma styleRules_flat_media:
  assumes "list_all flatRule ns"
  shows "styleRules (CSSParser_parse (before @ [AtRule ''media'' params ns] @ after))
           = styleRules (CSSParser_parse (before @ after))"
  using walkRules_flat [OF assms] by (simp add: CSSParser_parse_def)

lemma applyStyles_only_styleRules:
  assumes "styleRules (CSSParser_parse root1) = styleRules (CSSParser_parse root2)"
  shows "map_sum id mapper (convert optPrefix htmlBody root1)
           = map_sum id mapper (convert optPrefix htmlBody root2)"
proof -
  have "pstyleRules (snd (processCssClasses r (CSSParser_parse root1)))
          = pstyleRules (snd (processCssClasses r (CSSParser_parse root2)))" for r
    using assms by (simp add: processCssClasses_def split_beta)
  then show ?thesis
    by (simp add: convert_def Let_def split_beta applyStylesToElements_def
        split: sum.splits)
qed

lemma flat_media_isolated:
  assumes "list_all flatRule ns"
  shows "map_sum id mapper (convert optPrefix htmlBody (before @ [AtRule ''media'' params ns] @ after))
           = map_sum id mapper (convert optPrefix htmlBody (before @ after))"
  by (rule applyStyles_only_styleRules [OF styleRules_flat_media [OF assms]])

section \<open>getAllClassMappings and the registry as an object\<close>

text \<open>
  For the question of what a caller can reach through the object that getAllClassMappings
  returns, the registry is placed in a store of cells: the registry object with its prefix, the
  references to its two maps and its counter, the \<open>Map\<close> objects, and plain objects. An address
  is an index into the store. \<open>loadRegistry\<close> reads the registry value at an address.
  getAllClassMappings allocates the object \<open>mappings\<close> as a new cell and returns its address.
\<close>

datatype cell =
    RegistryCell string nat nat nat
  | MapCell "(string, string) jsmap"
  | ObjectCell "string jsobject"

definition loadMap :: "cell list \<Rightarrow> nat \<Rightarrow> (string, string) jsmap option" where
  "loadMap h a =
     (if a < length h then (case h ! a of MapCell m \<Rightarrow> Some m | _ \<Rightarrow> None) else None)"

definition loadRegistry :: "cell list \<Rightarrow> nat \<Rightarrow> ClassNamingSystem option" where
  "loadRegistry h this =
     (if this < length h
      then (case h ! this of
              RegistryCell p cm rm n \<Rightarrow>
                (case (loadMap h cm, loadMap h rm) of
                   (Some c, Some r) \<Rightarrow>
                     Some \<lparr>prefix = p, classMap = c, reverseMap = r, counter = n\<rparr>
                 | _ \<Rightarrow> None)
            | _ \<Rightarrow> None)
      else None)"

definition getAllClassMappingsAt :: "cell list \<Rightarrow> nat \<Rightarrow> (cell list \<times> nat) option" where
  "getAllClassMappingsAt h this =
     (case loadRegistry h this of
        None \<Rightarrow> None
      | Some r \<Rightarrow> Some (h @ [ObjectCell (getAllClassMappings r)], length h))"

lemma loadMap_append: "loadMap h a = Some m \<Longrightarrow> loadMap (h @ [c]) a = Some m"
  by (auto simp: loadMap_def nth_append split: if_splits)

lemma loadRegistry_append:
  assumes "loadRegistry h this = Some r"
  shows "loadRegistry (h @ [c]) this = Some r"
proof -
  from assms have lt: "this < length h"
    by (auto simp: loadRegistry_def split: if_splits)
  from assms lt obtain p cm rm n where cell: "h ! this = RegistryCell p cm rm n"
    by (auto simp: loadRegistry_def split: cell.splits)
  from assms lt cell obtain cmap rmap where
    maps: "loadMap h cm = Some cmap" "loadMap h rm = Some rmap"
    and r: "r = \<lparr>prefix = p, classMap = cmap, reverseMap = rmap, counter = n\<rparr>"
    by (auto simp: loadRegistry_def split: option.splits)
  from lt cell maps r show ?thesis
    by (simp add: loadRegistry_def nth_append loadMap_append)
qed

text \<open>
  The object that getAllClassMappings returns is new: its address is not an address of the
  store before the call. Whatever is written to that object afterwards (the cell is replaced
  by any cell \<open>c\<close>), the registry read from the store is the same as before the call: same
  maps, same counter. A second call, with no generateClassName call in between, returns a
  further object with the same contents as the first call returned.
\<close>

lemma snapshot_is_fresh:
  assumes "loadRegistry h this = Some r"
  shows "getAllClassMappingsAt h this
           = Some (h @ [ObjectCell (getAllClassMappings r)], length h) \<and>
         loadRegistry ((h @ [ObjectCell (getAllClassMappings r)])[length h := c]) this = Some r \<and>
         getAllClassMappingsAt ((h @ [ObjectCell (getAllClassMappings r)])[length h := c]) this
           = Some (h @ [c] @ [ObjectCell (getAllClassMappings r)], Suc (length h))"
proof -
  have upd: "(h @ [ObjectCell (getAllClassMappings r)])[length h := c] = h @ [c]"
    by simp
  have kept: "loadRegistry (h @ [c]) this = Some r"
    by (rule loadRegistry_append [OF assms])
  show ?thesis
    using assms kept by (simp only: upd) (simp add: getAllClassMappingsAt_def)
qed

text \<open>
  The contents of the returned object: for every name other than \<open>__proto__\<close> the entry of
  classMap, and never an entry for \<open>__proto__\<close>.
\<close>

lemma fold_objSet_lookup:
  "k \<noteq> ''__proto__'' \<Longrightarrow>
   map_of (fold (\<lambda>(original, generated) mappings. objSet mappings original generated) xs acc) k
     = (case map_of (rev xs) k of Some v \<Rightarrow> Some v | None \<Rightarrow> map_of acc k)"
proof (induction xs arbitrary: acc)
  case Nil
  show ?case by simp
next
  case (Cons x xs)
  obtain a b where x: "x = (a, b)" by (cases x)
  show ?case
    using Cons.IH [OF Cons.prems, of "objSet acc a b"] x Cons.prems
    by (auto simp: objSet_def update_conv' map_add_def split: option.splits)
qed

lemma getAllClassMappings_lookup:
  assumes "distinct (map fst (classMap r))" and "k \<noteq> ''__proto__''"
  shows "map_of (getAllClassMappings r) k = map_of (classMap r) k"
proof -
  have "map_of (rev (classMap r)) = map_of (classMap r)"
    using assms(1) by (simp add: map_of_inject_set distinct_map)
  with fold_objSet_lookup [OF assms(2), of "classMap r" "[]"] show ?thesis
    by (simp add: getAllClassMappings_def split: option.splits)
qed

lemma fold_objSet_proto:
  "map_of acc ''__proto__'' = None \<Longrightarrow>
   map_of (fold (\<lambda>(original, generated) mappings. objSet mappings original generated) xs acc)
     ''__proto__'' = None"
proof (induction xs arbitrary: acc)
  case Nil
  then show ?case by simp
next
  case (Cons x xs)
  obtain a b where x: "x = (a, b)" by (cases x)
  have "map_of (objSet acc a b) ''__proto__'' = None"
    using Cons.prems by (simp add: objSet_def update_conv')
  from Cons.IH [OF this] x show ?case by simp
qed

lemma getAllClassMappings_proto: "map_of (getAllClassMappings r) ''__proto__'' = None"
  by (simp add: getAllClassMappings_def fold_objSet_proto)

text \<open>The markup \<open><div class="a __proto__"></div>\<close> as cheerio loads it.\<close>

definition protoBody :: element where
  "protoBody = Element ''body'' [] [Element ''div'' [(''class'', ''a __proto__'')] []]"

text \<open>
  C10. The claim: getAllClassMappings returns a new object that holds the original-to-generated
  mapping, changes to that object do not reach the registry, and two calls in a row return
  objects with equal contents. The object is new and apart from the registry, and a second
  call returns equal contents (lemma \<open>snapshot_is_fresh\<close>), but it does not hold the whole
  mapping: for a class named \<open>__proto__\<close> the assignment \<open>mappings[original] = generated\<close>
  stores nothing. For the markup above the registry maps both class names, and the object
  returned, which is the class map in the result of convert, holds the entry for \<open>a\<close> only.
\<close>

theorem C10_proto_entry_dropped:
  "classMap (preGenerateClassNames (newClassNamingSystem ''html2wf-'') (HTMLParser_parse protoBody))
     = [(''a'', ''html2wf-a''), (''__proto__'', ''html2wf-__proto__'')] \<and>
   getAllClassMappings
       (preGenerateClassNames (newClassNamingSystem ''html2wf-'') (HTMLParser_parse protoBody))
     = [(''a'', ''html2wf-a'')] \<and>
   map_sum id classMapping (convert None protoBody []) = Inr [(''a'', ''html2wf-a'')]"
  by code_simp

section \<open>Specificity after selector rewriting\<close>

text \<open>
  The three patterns of calculateSpecificity tell the identifier characters from the others,
  but not one identifier character from another, and each matches a run of them as a whole.
  \<open>collapse\<close> replaces every maximal run of identifier characters by the single character
  \<open>a\<close>; the number of matches of each pattern is the same before and after.
\<close>

definition identOnly :: "string \<Rightarrow> bool" where
  "identOnly s = list_all isIdentChar s"

definition noIdentHead :: "string \<Rightarrow> bool" where
  "noIdentHead s = (case s of [] \<Rightarrow> True | c # cs \<Rightarrow> \<not> isIdentChar c)"

fun collapse :: "string \<Rightarrow> string" where
  "collapse [] = []"
| "collapse (c # cs) =
     (if isIdentChar c then CHR ''a'' # collapse (dropWhile isIdentChar cs) else c # collapse cs)"

lemma ident_a: "isIdentChar CHR ''a''"
  by (simp add: char_class_defs)

lemma ident_not_special:
  "isIdentChar c \<Longrightarrow> c \<noteq> CHR ''.'' \<and> c \<noteq> CHR ''#'' \<and> c \<noteq> CHR '':'' \<and> c \<noteq> CHR ''['' \<and> c \<noteq> CHR '']''
     \<and> \<not> isLineTerminator c"
  by (auto simp: char_class_defs)

lemma noIdentHead_simps [simp]:
  "noIdentHead []" "noIdentHead (c # cs) = (\<not> isIdentChar c)"
  by (simp_all add: noIdentHead_def)

lemma noIdentHead_takeWhile: "noIdentHead s \<longleftrightarrow> takeWhile isIdentChar s = []"
  by (cases s) auto

lemma noIdentHead_dropWhile: "noIdentHead (dropWhile isIdentChar s)"
  by (induction s) auto

lemma dropWhile_noIdentHead: "noIdentHead s \<Longrightarrow> dropWhile isIdentChar s = s"
  by (cases s) auto

lemma noIdentHead_collapse: "noIdentHead (collapse s) = noIdentHead s"
  by (cases s) (auto simp: ident_a)

lemma collapse_dropWhile:
  "collapse s = (if noIdentHead s then collapse (dropWhile isIdentChar s)
                 else CHR ''a'' # collapse (dropWhile isIdentChar s))"
  by (cases s) auto

lemma collapse_eq_dropWhile:
  assumes "collapse x = collapse y"
  shows "collapse (dropWhile isIdentChar x) = collapse (dropWhile isIdentChar y)"
proof -
  have "noIdentHead x = noIdentHead y"
    using assms noIdentHead_collapse by metis
  with assms collapse_dropWhile [of x] collapse_dropWhile [of y] show ?thesis
    by (auto split: if_splits)
qed

lemma takeWhile_run:
  "identOnly u \<Longrightarrow> noIdentHead s \<Longrightarrow> takeWhile isIdentChar (u @ s) = u"
  by (induction u) (auto simp: identOnly_def noIdentHead_takeWhile)

lemma dropWhile_run:
  "identOnly u \<Longrightarrow> noIdentHead s \<Longrightarrow> dropWhile isIdentChar (u @ s) = s"
  by (induction u) (auto simp: identOnly_def dropWhile_noIdentHead)

lemma collapse_run:
  assumes "identOnly u" and "u \<noteq> []" and "noIdentHead s"
  shows "collapse (u @ s) = CHR ''a'' # collapse s"
proof -
  from assms obtain c u' where u: "u = c # u'" and c: "isIdentChar c" and u': "identOnly u'"
    by (cases u) (auto simp: identOnly_def)
  with dropWhile_run [OF u' assms(3)] show ?thesis by simp
qed

text \<open>matchIds\<close>

lemma matchIds_no:
  "\<not> (c = CHR ''#'' \<and> takeWhile isIdentChar cs \<noteq> []) \<Longrightarrow> matchIds (c # cs) = matchIds cs"
  by auto

lemma matchIds_yes:
  "c = CHR ''#'' \<and> takeWhile isIdentChar cs \<noteq> [] \<Longrightarrow>
   length (matchIds (c # cs)) = Suc (length (matchIds (dropWhile isIdentChar cs)))"
  by simp

lemma matchIds_skip: "isIdentChar c \<Longrightarrow> matchIds (c # s) = matchIds s"
  by (rule matchIds_no) (auto dest: ident_not_special)

lemma matchIds_collapse_dropWhile:
  "matchIds (collapse (dropWhile isIdentChar s)) = matchIds (collapse s)"
  using collapse_dropWhile [of s] by (simp add: matchIds_skip ident_a del: matchIds.simps)

lemma matchIds_collapse: "length (matchIds (collapse s)) = length (matchIds s)"
proof (induction s rule: matchIds.induct)
  case 1
  show ?case by simp
next
  case (2 c cs)
  show ?case
  proof (cases "c = CHR ''#'' \<and> takeWhile isIdentChar cs \<noteq> []")
    case True
    then have c: "c = CHR ''#''" and run: "\<not> noIdentHead cs"
      by (simp_all add: noIdentHead_takeWhile)
    let ?X = "collapse (dropWhile isIdentChar cs)"
    have X: "noIdentHead ?X" by (simp add: noIdentHead_collapse noIdentHead_dropWhile)
    have "collapse (c # cs) = CHR ''#'' # CHR ''a'' # ?X"
      using c run collapse_dropWhile [of cs] by (simp add: char_class_defs)
    moreover have "length (matchIds (CHR ''#'' # CHR ''a'' # ?X)) = Suc (length (matchIds ?X))"
      using X matchIds_yes [of "CHR ''#''" "CHR ''a'' # ?X"]
      by (simp add: ident_a dropWhile_noIdentHead del: matchIds.simps)
    ultimately show ?thesis
      using matchIds_yes [OF True] "2.IH"(1) [OF True] by (simp del: matchIds.simps)
  next
    case False
    note orig = matchIds_no [OF False]
    show ?thesis
    proof (cases "isIdentChar c")
      case True
      then have "matchIds (collapse (c # cs)) = matchIds (collapse (dropWhile isIdentChar cs))"
        by (simp add: matchIds_skip ident_a del: matchIds.simps)
      also have "\<dots> = matchIds (collapse cs)" by (rule matchIds_collapse_dropWhile)
      finally show ?thesis using orig "2.IH"(2) [OF False] by (simp del: matchIds.simps)
    next
      case nonident: False
      have "takeWhile isIdentChar (collapse cs) = [] \<longleftrightarrow> takeWhile isIdentChar cs = []"
        using noIdentHead_collapse [of cs] by (simp add: noIdentHead_takeWhile)
      with False have "\<not> (c = CHR ''#'' \<and> takeWhile isIdentChar (collapse cs) \<noteq> [])"
        by simp
      from matchIds_no [OF this] nonident orig "2.IH"(2) [OF False] show ?thesis
        by (simp del: matchIds.simps)
    qed
  qed
qed


text \<open>matchElements\<close>

definition pseudoElementAt :: "char \<Rightarrow> string \<Rightarrow> bool" where
  "pseudoElementAt c cs =
     (c = CHR '':'' \<and> cs \<noteq> [] \<and> hd cs = CHR '':'' \<and> takeWhile isIdentChar (tl cs) \<noteq> [])"

lemma matchElements_run:
  "isIdentChar c \<Longrightarrow>
   length (matchElements (c # cs)) = Suc (length (matchElements (dropWhile isIdentChar cs)))"
  by simp

lemma matchElements_pseudo:
  "\<not> isIdentChar c \<Longrightarrow> pseudoElementAt c cs \<Longrightarrow>
   length (matchElements (c # cs)) = Suc (length (matchElements (dropWhile isIdentChar (tl cs))))"
  by (simp add: pseudoElementAt_def)

lemma matchElements_other:
  "\<not> isIdentChar c \<Longrightarrow> \<not> pseudoElementAt c cs \<Longrightarrow> matchElements (c # cs) = matchElements cs"
  by (auto simp: pseudoElementAt_def)

lemma pseudoElementAt_collapse:
  "pseudoElementAt c (collapse cs) = pseudoElementAt c cs"
proof (cases cs)
  case Nil
  then show ?thesis by (simp add: pseudoElementAt_def)
next
  case (Cons d ds)
  show ?thesis
  proof (cases "isIdentChar d")
    case True
    with Cons show ?thesis
      by (auto simp: pseudoElementAt_def dest: ident_not_special)
  next
    case False
    have "takeWhile isIdentChar (collapse ds) = [] \<longleftrightarrow> takeWhile isIdentChar ds = []"
      using noIdentHead_collapse [of ds] by (simp add: noIdentHead_takeWhile)
    with False Cons show ?thesis
      by (simp add: pseudoElementAt_def)
  qed
qed

lemma matchElements_collapse: "length (matchElements (collapse s)) = length (matchElements s)"
proof (induction s rule: matchElements.induct)
  case 1
  show ?case by simp
next
  case (2 c cs)
  show ?case
  proof (cases "isIdentChar c")
    case True
    let ?X = "collapse (dropWhile isIdentChar cs)"
    have X: "noIdentHead ?X" by (simp add: noIdentHead_collapse noIdentHead_dropWhile)
    have "length (matchElements (collapse (c # cs))) = Suc (length (matchElements ?X))"
      using True X matchElements_run [OF ident_a, of ?X]
      by (simp add: dropWhile_noIdentHead del: matchElements.simps)
    with matchElements_run [OF True, of cs] "2.IH"(1) [OF True] show ?thesis
      by (simp del: matchElements.simps)
  next
    case nonident: False
    show ?thesis
    proof (cases "pseudoElementAt c cs")
      case True
      then obtain d ds where cs: "cs = CHR '':'' # d # ds" and d: "isIdentChar d" and c: "c = CHR '':''"
        by (cases cs; cases "tl cs") (auto simp: pseudoElementAt_def split: if_splits)
      let ?X = "collapse (dropWhile isIdentChar ds)"
      have X: "noIdentHead ?X" by (simp add: noIdentHead_collapse noIdentHead_dropWhile)
      have nc: "\<not> isIdentChar CHR '':''" by (simp add: char_class_defs)
      have col: "collapse (c # cs) = CHR '':'' # CHR '':'' # CHR ''a'' # ?X"
        using cs d c nc by simp
      have "pseudoElementAt CHR '':'' (CHR '':'' # CHR ''a'' # ?X)"
        by (simp add: pseudoElementAt_def ident_a)
      from matchElements_pseudo [OF nc this] X
      have "length (matchElements (collapse (c # cs))) = Suc (length (matchElements ?X))"
        unfolding col by (simp add: ident_a dropWhile_noIdentHead del: matchElements.simps)
      moreover have "dropWhile isIdentChar (tl cs) = dropWhile isIdentChar ds"
        using cs d by simp
      moreover have cond: "c = CHR '':'' \<and> cs \<noteq> [] \<and> hd cs = CHR '':'' \<and> takeWhile isIdentChar (tl cs) \<noteq> []"
        using True by (simp add: pseudoElementAt_def)
      ultimately show ?thesis
        using matchElements_pseudo [OF nonident True] "2.IH"(2) [OF nonident cond]
        by (simp del: matchElements.simps)
    next
      case False
      then have ncond: "\<not> (c = CHR '':'' \<and> cs \<noteq> [] \<and> hd cs = CHR '':'' \<and> takeWhile isIdentChar (tl cs) \<noteq> [])"
        by (simp add: pseudoElementAt_def)
      have "\<not> pseudoElementAt c (collapse cs)"
        using False by (simp add: pseudoElementAt_collapse)
      from matchElements_other [OF nonident this] matchElements_other [OF nonident False]
        "2.IH"(3) [OF nonident ncond] nonident
      show ?thesis by (simp del: matchElements.simps)
    qed
  qed
qed


text \<open>matchClasses\<close>

definition inAttr :: "char \<Rightarrow> bool" where
  "inAttr y = (y \<noteq> CHR '']'' \<and> \<not> isLineTerminator y)"

definition closeBracket :: "string \<Rightarrow> string option" where
  "closeBracket s =
     (case dropWhile inAttr s of
        [] \<Rightarrow> None
      | y # p \<Rightarrow> if y = CHR '']'' then Some p else None)"

lemma matchAttr_rest:
  "map_option snd (matchAttr cs)
     = (case cs of [] \<Rightarrow> None | x # rest \<Rightarrow> if isLineTerminator x then None else closeBracket rest)"
proof (cases cs)
  case Nil
  then show ?thesis by (simp add: matchAttr_def)
next
  case (Cons x rest)
  have eq: "(\<lambda>y. y \<noteq> CHR '']'' \<and> \<not> isLineTerminator y) = inAttr"
    by (simp add: inAttr_def fun_eq_iff)
  have "matchAttr (x # rest) =
          (if isLineTerminator x then None
           else (case dropWhile inAttr rest of
                   [] \<Rightarrow> None
                 | y # post' \<Rightarrow>
                     if y = CHR '']'' then Some (x # takeWhile inAttr rest @ [y], post') else None))"
    by (simp add: matchAttr_def eq Let_def)
  then show ?thesis
    unfolding Cons closeBracket_def
    by (cases "dropWhile inAttr rest") (simp_all del: dropWhile_eq_Nil_conv)
qed

lemma closeBracket_skip: "isIdentChar c \<Longrightarrow> closeBracket (c # s) = closeBracket s"
  by (auto simp: closeBracket_def inAttr_def dest: ident_not_special)

lemma closeBracket_dropWhile: "closeBracket (dropWhile isIdentChar s) = closeBracket s"
  by (induction s) (simp_all add: closeBracket_skip)

lemma closeBracket_collapse: "closeBracket (collapse s) = map_option collapse (closeBracket s)"
proof (induction s rule: collapse.induct)
  case 1
  show ?case by (simp add: closeBracket_def)
next
  case (2 c cs)
  show ?case
  proof (cases "isIdentChar c")
    case True
    have "closeBracket (collapse (c # cs)) = closeBracket (collapse (dropWhile isIdentChar cs))"
      using True by (simp add: closeBracket_skip ident_a)
    also have "\<dots> = map_option collapse (closeBracket (dropWhile isIdentChar cs))"
      by (rule "2.IH"(1) [OF True])
    also have "\<dots> = map_option collapse (closeBracket (c # cs))"
      using True by (simp add: closeBracket_dropWhile closeBracket_skip)
    finally show ?thesis .
  next
    case False
    show ?thesis
    proof (cases "inAttr c")
      case True
      then have "closeBracket (c # collapse cs) = closeBracket (collapse cs)"
        and "closeBracket (c # cs) = closeBracket cs"
        by (simp_all add: closeBracket_def)
      with False "2.IH"(2) [OF False] show ?thesis by simp
    next
      case stop: False
      with False show ?thesis
        by (simp add: closeBracket_def)
    qed
  qed
qed

lemma matchAttr_collapse:
  "map_option snd (matchAttr (collapse cs)) = map_option collapse (map_option snd (matchAttr cs))"
proof (cases cs)
  case Nil
  then show ?thesis by (simp add: matchAttr_rest)
next
  case (Cons x rest)
  show ?thesis
  proof (cases "isIdentChar x")
    case True
    then have "\<not> isLineTerminator x" by (auto dest: ident_not_special)
    moreover have "\<not> isLineTerminator CHR ''a''" by (simp add: char_class_defs)
    ultimately show ?thesis
      using True Cons
      by (simp add: matchAttr_rest closeBracket_collapse closeBracket_dropWhile)
  next
    case False
    with Cons show ?thesis
      by (simp add: matchAttr_rest closeBracket_collapse)
  qed
qed

definition tokenAt :: "char \<Rightarrow> string \<Rightarrow> bool" where
  "tokenAt c cs = ((c = CHR ''.'' \<or> c = CHR '':'') \<and> takeWhile isIdentChar cs \<noteq> [])"

lemma matchClasses_token:
  "tokenAt c cs \<Longrightarrow>
   length (matchClasses (c # cs)) = Suc (length (matchClasses (dropWhile isIdentChar cs)))"
  by (auto simp: tokenAt_def)

lemma matchClasses_attr_some:
  "matchAttr cs = Some (m, rest) \<Longrightarrow>
   length (matchClasses (CHR ''['' # cs)) = Suc (length (matchClasses rest))"
  by simp

lemma matchClasses_attr_none:
  "matchAttr cs = None \<Longrightarrow> matchClasses (CHR ''['' # cs) = matchClasses cs"
  by simp

lemma matchClasses_other:
  "\<not> tokenAt c cs \<Longrightarrow> c \<noteq> CHR ''['' \<Longrightarrow> matchClasses (c # cs) = matchClasses cs"
  by (auto simp: tokenAt_def)

lemma tokenAt_collapse: "tokenAt c (collapse cs) = tokenAt c cs"
  using noIdentHead_collapse [of cs] by (simp add: tokenAt_def noIdentHead_takeWhile)

lemma matchClasses_skip: "isIdentChar c \<Longrightarrow> matchClasses (c # s) = matchClasses s"
  by (rule matchClasses_other) (auto simp: tokenAt_def dest: ident_not_special)

lemma matchClasses_collapse_dropWhile:
  "matchClasses (collapse (dropWhile isIdentChar s)) = matchClasses (collapse s)"
  using collapse_dropWhile [of s] by (simp add: matchClasses_skip ident_a del: matchClasses.simps)

lemma matchClasses_collapse: "length (matchClasses (collapse s)) = length (matchClasses s)"
proof (induction s rule: length_induct)
  case (1 s)
  note IH = "1.IH" [rule_format]
  show ?case
  proof (cases s)
    case Nil
    then show ?thesis by simp
  next
    case (Cons c cs)
    have IHcs: "length (matchClasses (collapse cs)) = length (matchClasses cs)"
      using Cons by (intro IH) simp
    show ?thesis
    proof (cases "tokenAt c cs")
      case True
      then have nonident: "\<not> isIdentChar c" and run: "\<not> noIdentHead cs"
        by (auto simp: tokenAt_def noIdentHead_takeWhile dest: ident_not_special)
      let ?X = "collapse (dropWhile isIdentChar cs)"
      have X: "noIdentHead ?X" by (simp add: noIdentHead_collapse noIdentHead_dropWhile)
      have col: "collapse (c # cs) = c # CHR ''a'' # ?X"
        using nonident run collapse_dropWhile [of cs] by simp
      have "tokenAt c (CHR ''a'' # ?X)"
        using True by (simp add: tokenAt_def ident_a)
      from matchClasses_token [OF this] X
      have "length (matchClasses (collapse (c # cs))) = Suc (length (matchClasses ?X))"
        unfolding col by (simp add: ident_a dropWhile_noIdentHead del: matchClasses.simps)
      moreover have "length (matchClasses ?X) = length (matchClasses (dropWhile isIdentChar cs))"
        using Cons length_dropWhile_le [of isIdentChar cs] by (intro IH) simp
      ultimately show ?thesis
        using matchClasses_token [OF True] Cons by (simp del: matchClasses.simps)
    next
      case noToken: False
      show ?thesis
      proof (cases "c = CHR ''[''")
        case True
        then have col: "collapse (c # cs) = CHR ''['' # collapse cs"
          by (simp add: char_class_defs)
        show ?thesis
        proof (cases "matchAttr cs")
          case None
          then have "matchAttr (collapse cs) = None"
            using matchAttr_collapse [of cs] by simp
          from matchClasses_attr_none [OF this] matchClasses_attr_none [OF None] IHcs True
          show ?thesis unfolding Cons col by (simp del: matchClasses.simps)
        next
          case (Some p)
          obtain m rest where p: "p = (m, rest)" by (cases p)
          from Some p matchAttr_collapse [of cs]
          obtain m' where col_attr: "matchAttr (collapse cs) = Some (m', collapse rest)"
            by (cases "matchAttr (collapse cs)") auto
          have "length rest < length s"
            using matchAttr_shorter [of cs m rest] Some p Cons by simp
          then have "length (matchClasses (collapse rest)) = length (matchClasses rest)"
            by (rule IH)
          with matchClasses_attr_some [OF col_attr] matchClasses_attr_some [of cs m rest]
            Some p True
          show ?thesis unfolding Cons col by (simp del: matchClasses.simps)
        qed
      next
        case noBracket: False
        note orig = matchClasses_other [OF noToken noBracket]
        show ?thesis
        proof (cases "isIdentChar c")
          case True
          then have "matchClasses (collapse (c # cs)) = matchClasses (collapse (dropWhile isIdentChar cs))"
            by (simp add: matchClasses_skip ident_a del: matchClasses.simps)
          also have "\<dots> = matchClasses (collapse cs)" by (rule matchClasses_collapse_dropWhile)
          finally show ?thesis using orig IHcs Cons by (simp del: matchClasses.simps)
        next
          case False
          have "\<not> tokenAt c (collapse cs)"
            using noToken by (simp add: tokenAt_collapse)
          from matchClasses_other [OF this noBracket] False orig IHcs Cons show ?thesis
            by (simp del: matchClasses.simps)
        qed
      qed
    qed
  qed
qed

lemma calculateSpecificity_collapse:
  "calculateSpecificity (collapse s) = calculateSpecificity s"
  by (simp add: calculateSpecificity_def matchIds_collapse matchClasses_collapse
      matchElements_collapse)


text \<open>
  When the prefix consists of identifier characters only, so does every generated name, and
  the rewriting of a selector replaces runs of identifier characters by such runs.
\<close>

definition namesOk :: "ClassNamingSystem \<Rightarrow> bool" where
  "namesOk r =
     (identOnly (prefix r) \<and> list_all (\<lambda>(original, generated). identOnly generated) (classMap r))"

lemma identOnly_append [simp]: "identOnly (a @ b) = (identOnly a \<and> identOnly b)"
  by (simp add: identOnly_def)

lemma identOnly_digit: "d < 10 \<Longrightarrow> isIdentChar (digitChar d)"
proof -
  assume "d < 10"
  then have "d \<in> {0, 1, 2, 3, 4, 5, 6, 7, 8, 9}" by auto
  then show ?thesis by (auto simp: digitChar_def char_class_defs)
qed

lemma identOnly_show_nat: "identOnly (show_nat n)"
proof (induction n rule: show_nat.induct)
  case (1 n)
  show ?case
  proof (cases "n < 10")
    case True
    then show ?thesis
      by (subst show_nat.simps) (simp add: identOnly_def identOnly_digit)
  next
    case False
    with "1.IH" show ?thesis
      by (subst show_nat.simps) (simp add: identOnly_def identOnly_digit)
  qed
qed

lemma identOnly_literals: "identOnly ''class-''" "identOnly ''-''"
  by (simp_all add: identOnly_def char_class_defs)

lemma uniqueLoop_identOnly:
  "identOnly g \<Longrightarrow> identOnly u \<Longrightarrow> identOnly (uniqueLoop rm g suffix u)"
proof (induction rm g suffix u rule: uniqueLoop.induct)
  case (1 rm g suffix u)
  show ?case
  proof (cases "mapHas rm u")
    case True
    have "identOnly (g @ ''-'' @ show_nat (suffix + 1))"
      unfolding identOnly_append
      using "1.prems"(1) identOnly_literals(2) identOnly_show_nat by blast
    from "1.IH" [OF True "1.prems"(1) this] True show ?thesis
      by (subst uniqueLoop.simps) simp
  next
    case False
    with "1.prems"(2) show ?thesis
      by (subst uniqueLoop.simps) simp
  qed
qed

lemma testValidName_identOnly: "testValidName s \<Longrightarrow> identOnly s"
  by (cases s) (auto simp: testValidName_def identOnly_def isIdentStart_def isIdentChar_def)

lemma namesOk_generateClassName: "namesOk r \<Longrightarrow> namesOk (fst (generateClassName r n))"
proof (cases "mapHas (classMap r) n")
  case True
  assume "namesOk r"
  with True show ?thesis by (simp add: generateClassName_def)
next
  case False
  assume ok: "namesOk r"
  let ?g = "if n \<noteq> [] \<and> testValidName n then prefix r @ n
            else prefix r @ ''class-'' @ show_nat (counter r)"
  have p: "identOnly (prefix r)" using ok by (simp add: namesOk_def)
  have "identOnly (prefix r @ n)" if "testValidName n"
    unfolding identOnly_append using p testValidName_identOnly [OF that] by blast
  moreover have "identOnly (prefix r @ ''class-'' @ show_nat (counter r))"
    unfolding identOnly_append using p identOnly_literals(1) identOnly_show_nat by blast
  ultimately have g: "identOnly ?g"
    by (simp only: split: if_split) blast
  have "identOnly (uniqueLoop (reverseMap r) ?g 0 ?g)"
    by (rule uniqueLoop_identOnly [OF g g])
  with ok False show ?thesis
    by (simp add: generateClassName_def Let_def namesOk_def mapSet_def list_all_update)
qed

lemma namesOk_replaceClass: "namesOk r \<Longrightarrow> namesOk (fst (replaceClass r n))"
  by (simp add: replaceClass_def Let_def namesOk_generateClassName)

lemma namesOk_replaceAll: "namesOk r \<Longrightarrow> namesOk (fst (replaceAll r segs))"
proof (induction segs arbitrary: r)
  case Nil
  then show ?case by simp
next
  case (Cons seg segs)
  show ?case
  proof (cases seg)
    case (Lit c)
    with Cons.IH [OF Cons.prems] show ?thesis by (simp add: split_beta)
  next
    case (ClassTok n)
    have "namesOk (fst (replaceAll (fst (replaceClass r n)) segs))"
      by (rule Cons.IH [OF namesOk_replaceClass [OF Cons.prems]])
    with ClassTok show ?thesis by (simp add: split_beta)
  qed
qed

lemma renderClass_shape:
  assumes "namesOk r" and "identOnly n" and "n \<noteq> []"
  shows "\<exists>g. renderClass r n = CHR ''.'' # g \<and> g \<noteq> [] \<and> identOnly g"
proof (cases "getGeneratedClassName r n")
  case None
  with assms show ?thesis by (simp add: renderClass_def)
next
  case (Some g)
  then have ne: "g \<noteq> []" and m: "map_of (classMap r) n = Some g"
    by (auto simp: getGeneratedClassName_def orNull_def mapGet_def split: option.splits if_splits)
  from m have "(n, g) \<in> set (classMap r)" by (rule map_of_SomeD)
  with assms(1) have "identOnly g"
    by (auto simp: namesOk_def list_all_iff)
  with Some ne show ?thesis by (simp add: renderClass_def)
qed

definition renderAll :: "ClassNamingSystem \<Rightarrow> string \<Rightarrow> string" where
  "renderAll r s = concat (map (renderSegment r) (classTokens s))"

lemma renderAll_Nil [simp]: "renderAll r [] = []"
  by (simp add: renderAll_def)

lemma renderAll_class:
  "takeWhile isIdentChar cs \<noteq> [] \<Longrightarrow>
   renderAll r (CHR ''.'' # cs)
     = renderClass r (takeWhile isIdentChar cs) @ renderAll r (dropWhile isIdentChar cs)"
  by (simp add: renderAll_def)

lemma renderAll_other:
  "\<not> (c = CHR ''.'' \<and> takeWhile isIdentChar cs \<noteq> []) \<Longrightarrow> renderAll r (c # cs) = c # renderAll r cs"
  by (auto simp: renderAll_def)

lemma noIdentHead_renderAll: "noIdentHead s \<Longrightarrow> noIdentHead (renderAll r s)"
proof (cases s)
  case Nil
  then show ?thesis by simp
next
  case (Cons c cs)
  assume "noIdentHead s"
  with Cons have c: "\<not> isIdentChar c" by simp
  show ?thesis
  proof (cases "c = CHR ''.'' \<and> takeWhile isIdentChar cs \<noteq> []")
    case True
    then show ?thesis
      using Cons c renderAll_class [of cs r] by (simp add: renderClass_def split: option.splits)
  next
    case False
    with Cons c show ?thesis by (simp add: renderAll_other)
  qed
qed

lemma collapse_renderAll:
  assumes ok: "namesOk r"
  shows "collapse (renderAll r s) = collapse s"
proof (induction s rule: length_induct)
  case (1 s)
  note IH = "1.IH" [rule_format]
  show ?case
  proof (cases s)
    case Nil
    then show ?thesis by simp
  next
    case (Cons c cs)
    have IHcs: "collapse (renderAll r cs) = collapse cs"
      using Cons by (intro IH) simp
    show ?thesis
    proof (cases "c = CHR ''.'' \<and> takeWhile isIdentChar cs \<noteq> []")
      case True
      let ?n = "takeWhile isIdentChar cs"
      let ?rest = "dropWhile isIdentChar cs"
      have n: "identOnly ?n" "?n \<noteq> []"
        using True by (simp_all add: identOnly_def list_all_iff) (meson set_takeWhileD)
      from renderClass_shape [OF ok n]
      obtain g where g: "renderClass r ?n = CHR ''.'' # g" "g \<noteq> []" "identOnly g"
        by blast
      have dot: "\<not> isIdentChar CHR ''.''" by (simp add: char_class_defs)
      have headR: "noIdentHead (renderAll r ?rest)"
        by (rule noIdentHead_renderAll [OF noIdentHead_dropWhile])
      have "collapse (renderAll r s) = CHR ''.'' # collapse (g @ renderAll r ?rest)"
        using True Cons g(1) dot by (simp add: renderAll_class)
      also have "collapse (g @ renderAll r ?rest) = CHR ''a'' # collapse (renderAll r ?rest)"
        by (rule collapse_run [OF g(3) g(2) headR])
      also have "collapse (renderAll r ?rest) = collapse ?rest"
        using Cons length_dropWhile_le [of isIdentChar cs] by (intro IH) simp
      finally have lhs: "collapse (renderAll r s) = CHR ''.'' # CHR ''a'' # collapse ?rest" .
      have "\<not> noIdentHead cs" using True by (simp add: noIdentHead_takeWhile)
      then have "collapse cs = CHR ''a'' # collapse ?rest"
        using collapse_dropWhile [of cs] by simp
      with True Cons dot have "collapse s = CHR ''.'' # CHR ''a'' # collapse ?rest"
        by simp
      with lhs show ?thesis by simp
    next
      case False
      then have R: "renderAll r s = c # renderAll r cs"
        using Cons by (simp add: renderAll_other)
      show ?thesis
      proof (cases "isIdentChar c")
        case True
        have "collapse (dropWhile isIdentChar (renderAll r cs)) = collapse (dropWhile isIdentChar cs)"
          by (rule collapse_eq_dropWhile [OF IHcs])
        with True R Cons show ?thesis by simp
      next
        case nonident: False
        with R Cons IHcs show ?thesis by simp
      qed
    qed
  qed
qed

lemma transformSelector_specificity:
  assumes "namesOk r"
  shows "calculateSpecificity (snd (transformSelector r s)) = calculateSpecificity s"
proof -
  let ?r1 = "fst (replaceAll r (classTokens s))"
  have ok1: "namesOk ?r1" by (rule namesOk_replaceAll [OF assms])
  have "snd (transformSelector r s) = renderAll ?r1 s"
    using replaceAll_registers [of r "classTokens s"]
    by (simp add: transformSelector_def renderAll_def)
  then have "calculateSpecificity (snd (transformSelector r s))
               = calculateSpecificity (collapse (renderAll ?r1 s))"
    by (simp add: calculateSpecificity_collapse)
  also have "\<dots> = calculateSpecificity s"
    by (simp add: collapse_renderAll [OF ok1] calculateSpecificity_collapse)
  finally show ?thesis .
qed

lemma namesOk_transformSelector: "namesOk r \<Longrightarrow> namesOk (fst (transformSelector r s))"
  by (simp add: transformSelector_def namesOk_replaceAll)


text \<open>processCssClasses\<close>

definition parsedConsistent :: "StyleRule \<Rightarrow> bool" where
  "parsedConsistent rule = (specificity rule = calculateSpecificity (selector rule))"

definition specificityAgrees :: "ProcessedRule \<Rightarrow> bool" where
  "specificityAgrees p =
     (specificity p = calculateSpecificity (selector p) \<and>
      specificity p = calculateSpecificity (originalSelector p))"

lemma namesOk_new: "identOnly p \<Longrightarrow> namesOk (newClassNamingSystem p)"
  by (simp add: namesOk_def newClassNamingSystem_def)

lemma fold_keeps:
  "(\<And>x q. x \<in> set xs \<Longrightarrow> P q \<Longrightarrow> P (f x q)) \<Longrightarrow> P q \<Longrightarrow> P (fold f xs q)"
  by (induction xs arbitrary: q) auto

lemma namesOk_preGenerateClassNames: "namesOk r \<Longrightarrow> namesOk (preGenerateClassNames r e)"
proof (induction e arbitrary: r)
  case (ParsedElement elId tagName elementType classes children)
  have "namesOk (fold (\<lambda>className r'. fst (generateClassName r' className)) classes r)"
    by (rule fold_keeps [where P = namesOk]) (simp_all add: namesOk_generateClassName ParsedElement.prems)
  then have "namesOk (fold (\<lambda>child r'. preGenerateClassNames r' child) children
                (fold (\<lambda>className r'. fst (generateClassName r' className)) classes r))"
    by (rule fold_keeps [where P = namesOk, rotated]) (rule ParsedElement.IH)
  then show ?case by simp
qed

lemma processOneRule_ok:
  assumes "namesOk r" and "parsedConsistent rule"
  shows "namesOk (fst (processOneRule r rule)) \<and> specificityAgrees (snd (processOneRule r rule))"
  using assms transformSelector_specificity [OF assms(1), of "selector rule"]
    namesOk_transformSelector [OF assms(1), of "selector rule"]
  by (simp add: processOneRule_def split_beta specificityAgrees_def parsedConsistent_def)

lemma processRules_ok:
  "namesOk r \<Longrightarrow> list_all parsedConsistent rs \<Longrightarrow>
   namesOk (fst (processRules r rs)) \<and> list_all specificityAgrees (snd (processRules r rs))"
proof (induction rs arbitrary: r)
  case Nil
  then show ?case by simp
next
  case (Cons rule rs)
  from Cons.prems have one: "namesOk (fst (processOneRule r rule))"
    "specificityAgrees (snd (processOneRule r rule))"
    using processOneRule_ok [of r rule] by simp_all
  from Cons.prems Cons.IH [OF one(1)] one(2) show ?case
    by (simp add: split_beta)
qed

lemma processMediaQueries_ok:
  "namesOk r \<Longrightarrow> list_all (\<lambda>q. list_all parsedConsistent (rules q)) qs \<Longrightarrow>
   list_all (\<lambda>q. list_all specificityAgrees (prules q)) (snd (processMediaQueries r qs))"
proof (induction qs arbitrary: r)
  case Nil
  then show ?case by simp
next
  case (Cons q qs)
  from Cons.prems processRules_ok [of r "rules q"]
  have one: "namesOk (fst (processRules r (rules q)))"
    "list_all specificityAgrees (snd (processRules r (rules q)))"
    by simp_all
  from Cons.prems Cons.IH [OF one(1)] one(2) show ?case
    by (simp add: split_beta)
qed

lemma parse_consistent:
  "list_all parsedConsistent (styleRules (CSSParser_parse root)) \<and>
   list_all (\<lambda>q. list_all parsedConsistent (rules q)) (mediaQueries (CSSParser_parse root))"
  by (simp add: CSSParser_parse_def list_all_iff parsedConsistent_def processRule_def split_beta)


text \<open>A stylesheet with a top-level rule and a media query, for C7.\<close>

definition mediaCss :: "css_node list" where
  "mediaCss =
     [Rule ''.container .inner'' [Decl ''width'' ''100%''],
      AtRule ''media'' ''(max-width: 768px)'' [Rule ''.container'' [Decl ''width'' ''90%'']]]"



end
